theory Spec2Isabelle
  imports Main
begin

section \<open>Pointers, errors and the standard containers\<close>

text \<open>
  The library is three header files: \<^verbatim>\<open>listener.hpp\<close>, \<^verbatim>\<open>trackable.hpp\<close> and
  \<^verbatim>\<open>notifier.hpp\<close>. Objects refer to each other through raw pointers, so the model keeps
  an explicit store: an address is a natural number, a pointer is an optional address
  (\<open>None\<close> is \<^verbatim>\<open>nullptr\<close>), and every operation that the C++ standard leaves undefined
  (a call through a dangling or null pointer, erasing a list at an iterator that is not
  dereferenceable) is the error value \<open>Undefined_behaviour\<close>.
\<close>

type_synonym addr = nat
type_synonym ptr = "addr option"
type_synonym stub_type = nat
type_synonym exn = nat
type_synonym node = nat

datatype error = Undefined_behaviour

text \<open>
  A \<^verbatim>\<open>std::list\<close> is a sequence of nodes; an iterator names a node (or is the
  past-the-end iterator) and stays valid while its node is linked. The node names are
  kept beside the stored values.
\<close>

datatype iterator = Node node | End

type_synonym 'a std_list = "(node \<times> 'a) list"

definition list_begin :: "'a std_list \<Rightarrow> iterator" where
  "list_begin l = (case l of [] \<Rightarrow> End | (nd, x) # rest \<Rightarrow> Node nd)"

definition iter_at :: "'a std_list \<Rightarrow> nat \<Rightarrow> iterator" where
  "iter_at l k = (if k < length l then Node (fst (l ! k)) else End)"

text \<open>
  \<^verbatim>\<open>list::erase(pos)\<close> unlinks the node \<open>pos\<close> points to. The iterator has to be
  dereferenceable: the past-the-end iterator, or an iterator whose node is no longer in
  the list, is undefined behaviour.
\<close>

fun erase :: "'a std_list \<Rightarrow> iterator \<Rightarrow> error + 'a std_list" where
  "erase l End = Inl Undefined_behaviour"
| "erase [] (Node n) = Inl Undefined_behaviour"
| "erase ((nd, x) # rest) (Node n) =
     (if nd = n then Inr rest
      else (case erase rest (Node n) of
              Inl e \<Rightarrow> Inl e
            | Inr rest' \<Rightarrow> Inr ((nd, x) # rest')))"

text \<open>
  \<^verbatim>\<open>std::remove_if(first, last, p)\<close>, the algorithm of \<^verbatim>\<open><algorithm>\<close>, as every
  standard library implements it on forward iterators:
  \<^verbatim>\<open>
  first = std::find_if(first, last, p);
  if (first != last)
      for (i = first; ++i != last;)
          if (!p(*i)) *first++ = std::move(*i);
  return first;
  \<close>
  It assigns values from node to node and unlinks nothing; positions are indices into
  the sequence, \<open>length xs\<close> being \<^verbatim>\<open>last\<close>. The loop is entered with \<open>i\<close> below
  \<^verbatim>\<open>last\<close>, so \<^verbatim>\<open>++i != last\<close> is \<open>Suc i < length xs\<close>. A listener is three scalars,
  so moving one copies it.
\<close>

fun find_if :: "('a \<Rightarrow> bool) \<Rightarrow> 'a list \<Rightarrow> nat" where
  "find_if p [] = 0"
| "find_if p (x # xs) = (if p x then 0 else Suc (find_if p xs))"

function remove_if_loop :: "('a \<Rightarrow> bool) \<Rightarrow> 'a list \<Rightarrow> nat \<Rightarrow> nat \<Rightarrow> 'a list \<times> nat" where
  "remove_if_loop p xs first i =
     (if Suc i < length xs
      then (if \<not> p (xs ! Suc i)
            then remove_if_loop p (xs[first := xs ! Suc i]) (Suc first) (Suc i)
            else remove_if_loop p xs first (Suc i))
      else (xs, first))"
  by pat_completeness auto
termination
  by (relation "measure (\<lambda>(p, xs, first, i). length xs - i)") auto

declare remove_if_loop.simps [simp del]

definition remove_if :: "('a \<Rightarrow> bool) \<Rightarrow> 'a list \<Rightarrow> 'a list \<times> nat" where
  "remove_if p xs =
     (let first = find_if p xs
      in if first \<noteq> length xs then remove_if_loop p xs first first else (xs, first))"

definition std_remove_if :: "('a \<Rightarrow> bool) \<Rightarrow> 'a std_list \<Rightarrow> 'a std_list \<times> iterator" where
  "std_remove_if p l =
     (case remove_if p (map snd l) of
        (vs, k) \<Rightarrow> (zip (map fst l) vs, iter_at l k))"

text \<open>
  \<^verbatim>\<open>forward_list::remove_if(p)\<close>, the member function, unlinks every element that
  satisfies \<open>p\<close>.
\<close>

definition forward_list_remove_if :: "('a \<Rightarrow> bool) \<Rightarrow> 'a list \<Rightarrow> 'a list" where
  "forward_list_remove_if p xs = filter (\<lambda>x. \<not> p x) xs"

section \<open>listener.hpp\<close>

text \<open>
  A listener is the stub pointer, the object pointer and the trackable flag. The five
  \<^verbatim>\<open>make\<close> overloads differ only in the stub they name: \<open>make_function\<close> is the one
  for a static function, \<open>make_method\<close> the four for a member function, whose flag is
  \<^verbatim>\<open>detail::is_trackable<TObj>::value\<close>.
\<close>

record listener =
  m_stub :: stub_type
  m_object :: ptr
  m_trackable :: bool

definition make_function :: "stub_type \<Rightarrow> listener" where
  "make_function stub_ptr = \<lparr>m_stub = stub_ptr, m_object = None, m_trackable = False\<rparr>"

definition make_method :: "stub_type \<Rightarrow> ptr \<Rightarrow> bool \<Rightarrow> listener" where
  "make_method stub_ptr obj trckbl = \<lparr>m_stub = stub_ptr, m_object = obj, m_trackable = trckbl\<rparr>"

definition is_trackable :: "listener \<Rightarrow> bool" where
  "is_trackable l = m_trackable l"

definition get_object :: "listener \<Rightarrow> ptr" where
  "get_object l = m_object l"

definition has_object :: "listener \<Rightarrow> bool" where
  "has_object l = (get_object l \<noteq> None)"

text \<open>
  The code behind the stub pointers is a parameter \<open>prog\<close>: called with the object
  pointer and the parameters, a stub changes the world outside the library and either
  returns or throws. \<^verbatim>\<open>listener::operator()\<close> is \<^verbatim>\<open>(*m_stub)(m_object, params...)\<close>.
  Stubs that call back into the notifier that is invoking them are outside this model.
\<close>

type_synonym ('p, 'w) stubs = "stub_type \<Rightarrow> ptr \<Rightarrow> 'p \<Rightarrow> 'w \<Rightarrow> 'w \<times> exn option"

definition listener_call :: "('p, 'w) stubs \<Rightarrow> listener \<Rightarrow> 'p \<Rightarrow> 'w \<Rightarrow> 'w \<times> exn option" where
  "listener_call prog l params w = prog (m_stub l) (m_object l) params w"

section \<open>trackable.hpp\<close>

text \<open>
  The only \<^verbatim>\<open>track_func\<close> the library ever registers is the notifier's thunk
  \<^verbatim>\<open>disconnect_trackable\<close>. The fields of \<^verbatim>\<open>callback\<close> are \<^verbatim>\<open>function\<close>,
  \<^verbatim>\<open>notifier\<close> and \<^verbatim>\<open>object\<close> in the source.
\<close>

datatype track_func = Disconnect_trackable

record callback =
  cb_function :: track_func
  cb_notifier :: ptr
  cb_object :: ptr

record trackable =
  m_callbacks :: "callback list"

definition track :: "trackable \<Rightarrow> addr \<Rightarrow> ptr \<Rightarrow> track_func \<Rightarrow> trackable" where
  "track t this notifier func =
     t\<lparr>m_callbacks :=
         \<lparr>cb_function = func, cb_notifier = notifier, cb_object = Some this\<rparr> # m_callbacks t\<rparr>"

definition untrack :: "trackable \<Rightarrow> ptr \<Rightarrow> trackable" where
  "untrack t notifier =
     t\<lparr>m_callbacks :=
         forward_list_remove_if (\<lambda>cllbck. cb_notifier cllbck = notifier) (m_callbacks t)\<rparr>"

section \<open>notifier.hpp\<close>

record notifier =
  m_listeners :: "listener std_list"

record connection =
  m_notifier :: ptr
  m_listener :: iterator

text \<open>
  The store: the live notifiers and the live trackable objects by address, and the next
  unused list node.
\<close>

record state =
  notifiers :: "addr \<rightharpoonup> notifier"
  trackables :: "addr \<rightharpoonup> trackable"
  next_node :: node

text \<open>
  \<^verbatim>\<open>static_cast<const trackable*>(lstnr.get_object()) -> track(this, ...)\<close> and
  \<^verbatim>\<open>-> untrack(this)\<close>: the call needs a live trackable object at the address. An
  object and its \<^verbatim>\<open>trackable\<close> base are taken to have the same address, as the cast
  from \<^verbatim>\<open>void*\<close> and the pointer comparison in \<^verbatim>\<open>disconnect\<close> need.
\<close>

definition obj_track :: "state \<Rightarrow> ptr \<Rightarrow> ptr \<Rightarrow> track_func \<Rightarrow> error + state" where
  "obj_track s obj notifier func =
     (case obj of
        None \<Rightarrow> Inl Undefined_behaviour
      | Some a \<Rightarrow>
          (case trackables s a of
             None \<Rightarrow> Inl Undefined_behaviour
           | Some t \<Rightarrow> Inr (s\<lparr>trackables := (trackables s)(a \<mapsto> track t a notifier func)\<rparr>)))"

definition obj_untrack :: "state \<Rightarrow> ptr \<Rightarrow> ptr \<Rightarrow> error + state" where
  "obj_untrack s obj notifier =
     (case obj of
        None \<Rightarrow> Inl Undefined_behaviour
      | Some a \<Rightarrow>
          (case trackables s a of
             None \<Rightarrow> Inl Undefined_behaviour
           | Some t \<Rightarrow> Inr (s\<lparr>trackables := (trackables s)(a \<mapsto> untrack t notifier)\<rparr>)))"

text \<open>\<^verbatim>\<open>notifier::connect\<close>: track, \<^verbatim>\<open>push_front\<close>, and a connection at \<^verbatim>\<open>begin()\<close>.\<close>

definition connect :: "state \<Rightarrow> addr \<Rightarrow> listener \<Rightarrow> error + state \<times> connection" where
  "connect s this lstnr =
     (case notifiers s this of
        None \<Rightarrow> Inl Undefined_behaviour
      | Some N \<Rightarrow>
          (case (if is_trackable lstnr
                 then obj_track s (get_object lstnr) (Some this) Disconnect_trackable
                 else Inr s) of
             Inl e \<Rightarrow> Inl e
           | Inr s1 \<Rightarrow>
               (let l' = (next_node s1, lstnr) # m_listeners N
                in Inr (s1\<lparr>notifiers := (notifiers s1)(this \<mapsto> N\<lparr>m_listeners := l'\<rparr>),
                           next_node := Suc (next_node s1)\<rparr>,
                        \<lparr>m_notifier = Some this, m_listener = list_begin l'\<rparr>))))"

text \<open>
  \<^verbatim>\<open>notifier::disconnect(const TObj* obj)\<close>:
  \<^verbatim>\<open>m_listeners.erase(std::remove_if(m_listeners.begin(), m_listeners.end(), pred))\<close>,
  the one-iterator \<^verbatim>\<open>erase\<close>.
\<close>

definition disconnect_obj :: "state \<Rightarrow> addr \<Rightarrow> ptr \<Rightarrow> error + state" where
  "disconnect_obj s this obj =
     (case notifiers s this of
        None \<Rightarrow> Inl Undefined_behaviour
      | Some N \<Rightarrow>
          (case std_remove_if (\<lambda>lstnr. get_object lstnr = obj) (m_listeners N) of
             (l', it) \<Rightarrow>
               (case erase l' it of
                  Inl e \<Rightarrow> Inl e
                | Inr l'' \<Rightarrow> Inr (s\<lparr>notifiers := (notifiers s)(this \<mapsto> N\<lparr>m_listeners := l''\<rparr>)\<rparr>))))"

text \<open>\<^verbatim>\<open>notifier::disconnect_all\<close>: \<^verbatim>\<open>m_listeners.clear()\<close>.\<close>

definition disconnect_all :: "state \<Rightarrow> addr \<Rightarrow> error + state" where
  "disconnect_all s this =
     (case notifiers s this of
        None \<Rightarrow> Inl Undefined_behaviour
      | Some N \<Rightarrow> Inr (s\<lparr>notifiers := (notifiers s)(this \<mapsto> N\<lparr>m_listeners := []\<rparr>)\<rparr>))"

text \<open>\<^verbatim>\<open>notifier::disconnect(iterator)\<close>: \<^verbatim>\<open>m_listeners.erase(lstnr_iter)\<close>.\<close>

definition disconnect_iter :: "state \<Rightarrow> addr \<Rightarrow> iterator \<Rightarrow> error + state" where
  "disconnect_iter s this lstnr_iter =
     (case notifiers s this of
        None \<Rightarrow> Inl Undefined_behaviour
      | Some N \<Rightarrow>
          (case erase (m_listeners N) lstnr_iter of
             Inl e \<Rightarrow> Inl e
           | Inr l' \<Rightarrow> Inr (s\<lparr>notifiers := (notifiers s)(this \<mapsto> N\<lparr>m_listeners := l'\<rparr>)\<rparr>)))"

text \<open>
  \<^verbatim>\<open>connection::disconnect\<close>: the connection is an object of the caller's, so it is
  passed in and returned.
\<close>

definition connection_disconnect :: "state \<Rightarrow> connection \<Rightarrow> error + state \<times> connection" where
  "connection_disconnect s c =
     (case m_notifier c of
        None \<Rightarrow> Inr (s, c)
      | Some n \<Rightarrow>
          (case disconnect_iter s n (m_listener c) of
             Inl e \<Rightarrow> Inl e
           | Inr s' \<Rightarrow> Inr (s', c\<lparr>m_notifier := None\<rparr>)))"

text \<open>
  The thunk \<^verbatim>\<open>disconnect_trackable\<close>, a callback's call operator
  \<^verbatim>\<open>(*function)(notifier, object)\<close>, and \<^verbatim>\<open>~trackable\<close>, which calls every callback and
  then gives up the object.
\<close>

definition disconnect_trackable :: "state \<Rightarrow> ptr \<Rightarrow> ptr \<Rightarrow> error + state" where
  "disconnect_trackable s notifier obj =
     (case notifier of
        None \<Rightarrow> Inl Undefined_behaviour
      | Some n \<Rightarrow> disconnect_obj s n obj)"

definition callback_call :: "state \<Rightarrow> callback \<Rightarrow> error + state" where
  "callback_call s cllbck =
     (case cb_function cllbck of
        Disconnect_trackable \<Rightarrow> disconnect_trackable s (cb_notifier cllbck) (cb_object cllbck))"

fun run_callbacks :: "state \<Rightarrow> callback list \<Rightarrow> error + state" where
  "run_callbacks s [] = Inr s"
| "run_callbacks s (cllbck # rest) =
     (case callback_call s cllbck of
        Inl e \<Rightarrow> Inl e
      | Inr s' \<Rightarrow> run_callbacks s' rest)"

definition trackable_destructor :: "state \<Rightarrow> addr \<Rightarrow> error + state" where
  "trackable_destructor s this =
     (case trackables s this of
        None \<Rightarrow> Inl Undefined_behaviour
      | Some t \<Rightarrow>
          (case run_callbacks s (m_callbacks t) of
             Inl e \<Rightarrow> Inl e
           | Inr s' \<Rightarrow> Inr (s'\<lparr>trackables := (trackables s')(this := None)\<rparr>)))"

text \<open>\<^verbatim>\<open>~notifier\<close>: untrack at the object of every trackable listener, then the list goes.\<close>

fun untrack_listeners :: "state \<Rightarrow> addr \<Rightarrow> listener list \<Rightarrow> error + state" where
  "untrack_listeners s this [] = Inr s"
| "untrack_listeners s this (lstnr # rest) =
     (if is_trackable lstnr
      then (case obj_untrack s (get_object lstnr) (Some this) of
              Inl e \<Rightarrow> Inl e
            | Inr s' \<Rightarrow> untrack_listeners s' this rest)
      else untrack_listeners s this rest)"

definition notifier_destructor :: "state \<Rightarrow> addr \<Rightarrow> error + state" where
  "notifier_destructor s this =
     (case notifiers s this of
        None \<Rightarrow> Inl Undefined_behaviour
      | Some N \<Rightarrow>
          (case untrack_listeners s this (map snd (m_listeners N)) of
             Inl e \<Rightarrow> Inl e
           | Inr s' \<Rightarrow> Inr (s'\<lparr>notifiers := (notifiers s')(this := None)\<rparr>)))"

text \<open>
  \<^verbatim>\<open>notifier::operator()\<close> calls the listeners from the front of the list. The model
  also records which listener was called with which parameters; a throwing listener ends
  the loop.
\<close>

record ('p, 'w) outcome =
  invoked :: "(listener \<times> 'p) list"
  world :: 'w
  thrown :: "exn option"

fun notify_loop :: "('p, 'w) stubs \<Rightarrow> listener list \<Rightarrow> 'p \<Rightarrow> 'w \<Rightarrow> ('p, 'w) outcome" where
  "notify_loop prog [] params w = \<lparr>invoked = [], world = w, thrown = None\<rparr>"
| "notify_loop prog (lstnr # rest) params w =
     (case listener_call prog lstnr params w of
        (w', Some e) \<Rightarrow> \<lparr>invoked = [(lstnr, params)], world = w', thrown = Some e\<rparr>
      | (w', None) \<Rightarrow>
          (let r = notify_loop prog rest params w'
           in r\<lparr>invoked := (lstnr, params) # invoked r\<rparr>))"

definition operator_call :: "('p, 'w) stubs \<Rightarrow> state \<Rightarrow> addr \<Rightarrow> 'p \<Rightarrow> 'w \<Rightarrow> error + ('p, 'w) outcome" where
  "operator_call prog s this params w =
     (case notifiers s this of
        None \<Rightarrow> Inl Undefined_behaviour
      | Some N \<Rightarrow> Inr (notify_loop prog (map snd (m_listeners N)) params w))"

definition notify :: "('p, 'w) stubs \<Rightarrow> state \<Rightarrow> addr \<Rightarrow> 'p \<Rightarrow> 'w \<Rightarrow> error + ('p, 'w) outcome" where
  "notify prog s this params w = operator_call prog s this params w"

text \<open>
  The defaulted copy constructor and copy assignment copy \<^verbatim>\<open>m_listeners\<close> member by
  member. The constructor makes a notifier at an address that holds none, with nodes
  of its own. The assignment of a notifier to itself changes nothing; otherwise the
  assigned-to list gets the values of the other one, and the iterators into it are
  taken to be invalid from then on (its nodes are new ones).
\<close>

definition copy_list :: "node \<Rightarrow> 'a std_list \<Rightarrow> 'a std_list" where
  "copy_list nd l = zip [nd ..< nd + length l] (map snd l)"

definition notifier_copy :: "state \<Rightarrow> addr \<Rightarrow> addr \<Rightarrow> error + state" where
  "notifier_copy s this other =
     (case notifiers s other of
        None \<Rightarrow> Inl Undefined_behaviour
      | Some N \<Rightarrow>
          (case notifiers s this of
             Some N' \<Rightarrow> Inl Undefined_behaviour
           | None \<Rightarrow>
               Inr (s\<lparr>notifiers :=
                        (notifiers s)(this \<mapsto> \<lparr>m_listeners = copy_list (next_node s) (m_listeners N)\<rparr>),
                      next_node := next_node s + length (m_listeners N)\<rparr>)))"

definition notifier_assign :: "state \<Rightarrow> addr \<Rightarrow> addr \<Rightarrow> error + state" where
  "notifier_assign s this other =
     (case notifiers s other of
        None \<Rightarrow> Inl Undefined_behaviour
      | Some N \<Rightarrow>
          (case notifiers s this of
             None \<Rightarrow> Inl Undefined_behaviour
           | Some N' \<Rightarrow>
               (if this = other then Inr s
                else Inr (s\<lparr>notifiers :=
                             (notifiers s)(this \<mapsto> N'\<lparr>m_listeners := copy_list (next_node s) (m_listeners N)\<rparr>),
                           next_node := next_node s + length (m_listeners N)\<rparr>))))"

section \<open>Client code: sequences of calls and a small store\<close>

text \<open>
  A sequence of \<^verbatim>\<open>connect\<close> calls on one notifier, the connections being dropped, and
  the sequencing of two calls where the first may already be undefined.
\<close>

fun connects :: "state \<Rightarrow> addr \<Rightarrow> listener list \<Rightarrow> error + state" where
  "connects s this [] = Inr s"
| "connects s this (lstnr # rest) =
     (case connect s this lstnr of
        Inl e \<Rightarrow> Inl e
      | Inr (s', c) \<Rightarrow> connects s' this rest)"

definition and_then :: "error + 'a \<Rightarrow> ('a \<Rightarrow> error + 'b) \<Rightarrow> error + 'b" where
  "and_then r f = (case r of Inl e \<Rightarrow> Inl e | Inr x \<Rightarrow> f x)"

definition listeners_of :: "state \<Rightarrow> addr \<Rightarrow> listener list" where
  "listeners_of s n = (case notifiers s n of None \<Rightarrow> [] | Some N \<Rightarrow> map snd (m_listeners N))"

definition callbacks_of :: "state \<Rightarrow> addr \<Rightarrow> callback list" where
  "callbacks_of s a = (case trackables s a of None \<Rightarrow> [] | Some t \<Rightarrow> m_callbacks t)"

text \<open>
  The operations a caller can run on the store, one after the other. A broadcast is not
  among them, since it leaves the store as it is.
\<close>

datatype operation =
    Connect addr listener
  | Disconnect connection
  | Disconnect_obj addr ptr
  | Disconnect_all addr
  | Destroy_notifier addr
  | Copy_construct addr addr
  | Copy_assign addr addr
  | Destroy_trackable addr

fun exec :: "state \<Rightarrow> operation \<Rightarrow> error + state" where
  "exec s (Connect n lstnr) = map_sum id fst (connect s n lstnr)"
| "exec s (Disconnect c) = map_sum id fst (connection_disconnect s c)"
| "exec s (Disconnect_obj n obj) = disconnect_obj s n obj"
| "exec s (Disconnect_all n) = disconnect_all s n"
| "exec s (Destroy_notifier n) = notifier_destructor s n"
| "exec s (Copy_construct this other) = notifier_copy s this other"
| "exec s (Copy_assign this other) = notifier_assign s this other"
| "exec s (Destroy_trackable a) = trackable_destructor s a"

fun run :: "state \<Rightarrow> operation list \<Rightarrow> error + state" where
  "run s [] = Inr s"
| "run s (act # acts) =
     (case exec s act of
        Inl e \<Rightarrow> Inl e
      | Inr s' \<Rightarrow> run s' acts)"

text \<open>
  An operation spares the element at \<open>it\<close> in the list of the notifier \<open>n\<close> when it is
  none of: a \<^verbatim>\<open>disconnect\<close> through a connection to that very element; a
  \<^verbatim>\<open>disconnect(obj)\<close>, a \<^verbatim>\<open>disconnect_all\<close>, a copy assignment to, or the destruction
  of the notifier \<open>n\<close>; the destruction of a trackable object that holds a
  registration for \<open>n\<close> (its destructor calls \<^verbatim>\<open>disconnect(obj)\<close> on \<open>n\<close>).
\<close>

fun spares :: "addr \<Rightarrow> iterator \<Rightarrow> state \<Rightarrow> operation \<Rightarrow> bool" where
  "spares n it s (Connect m lstnr) = True"
| "spares n it s (Disconnect c) = (\<not> (m_notifier c = Some n \<and> m_listener c = it))"
| "spares n it s (Disconnect_obj m obj) = (m \<noteq> n)"
| "spares n it s (Disconnect_all m) = (m \<noteq> n)"
| "spares n it s (Destroy_notifier m) = (m \<noteq> n)"
| "spares n it s (Copy_construct this other) = True"
| "spares n it s (Copy_assign this other) = (this \<noteq> n)"
| "spares n it s (Destroy_trackable a) =
     list_all (\<lambda>cllbck. cb_notifier cllbck \<noteq> Some n) (callbacks_of s a)"

fun sparing :: "addr \<Rightarrow> iterator \<Rightarrow> state \<Rightarrow> operation list \<Rightarrow> bool" where
  "sparing n it s [] = True"
| "sparing n it s (act # acts) =
     (spares n it s act \<and>
      (case exec s act of
         Inl e \<Rightarrow> True
       | Inr s' \<Rightarrow> sparing n it s' acts))"

text \<open>
  The store of the examples: an empty notifier at address 1 and a trackable object with
  no registration at address 2. \<open>ex_free\<close> wraps a static function; \<open>ex_m1\<close> and
  \<open>ex_m2\<close> wrap two member functions of the object at address 2. The stubs 12 and 10
  append their argument, and twice their argument, to a log; stub 11 throws.
\<close>

definition ex_store :: state where
  "ex_store = \<lparr>notifiers = [1 \<mapsto> \<lparr>m_listeners = []\<rparr>],
               trackables = [2 \<mapsto> \<lparr>m_callbacks = []\<rparr>],
               next_node = 0\<rparr>"

definition ex_free :: listener where
  "ex_free = make_function 12"

definition ex_m1 :: listener where
  "ex_m1 = make_method 10 (Some 2) True"

definition ex_m2 :: listener where
  "ex_m2 = make_method 11 (Some 2) True"

definition ex_prog :: "(int, int list) stubs" where
  "ex_prog stub obj x log =
     (if stub = 12 then (log @ [x], None)
      else if stub = 10 then (log @ [x * 2], None)
      else (log, Some 1))"

text \<open>
  Stores reached from the example store: \<open>ex_one\<close> after \<open>ex_m1\<close> has been connected
  to the notifier at address 1; \<open>ex_copied\<close> after that notifier has been
  copy-constructed at address 3, and \<open>ex_assigned\<close> after it has then been assigned
  to the notifier at address 3; \<open>ex_later\<close> after the operations \<open>ex_acts\<close> have been
  run from \<open>ex_one\<close>. In \<open>ex_two\<close> the notifiers at addresses 1 and 3 have each
  connected \<open>ex_m1\<close>; \<open>ex_pair\<close> has two empty notifiers.
\<close>

definition ex_two :: state where
  "ex_two =
     \<lparr>notifiers = [1 \<mapsto> \<lparr>m_listeners = [(0, ex_m1)]\<rparr>, 3 \<mapsto> \<lparr>m_listeners = [(1, ex_m1)]\<rparr>],
      trackables = [2 \<mapsto> \<lparr>m_callbacks =
         [\<lparr>cb_function = Disconnect_trackable, cb_notifier = Some 3, cb_object = Some 2\<rparr>,
          \<lparr>cb_function = Disconnect_trackable, cb_notifier = Some 1, cb_object = Some 2\<rparr>]\<rparr>],
      next_node = 2\<rparr>"

definition ex_one :: state where
  "ex_one =
     \<lparr>notifiers = [1 \<mapsto> \<lparr>m_listeners = [(0, ex_m1)]\<rparr>],
      trackables = [2 \<mapsto> \<lparr>m_callbacks =
         [\<lparr>cb_function = Disconnect_trackable, cb_notifier = Some 1, cb_object = Some 2\<rparr>]\<rparr>],
      next_node = 1\<rparr>"

definition ex_copied :: state where
  "ex_copied =
     \<lparr>notifiers = [1 \<mapsto> \<lparr>m_listeners = [(0, ex_m1)]\<rparr>, 3 \<mapsto> \<lparr>m_listeners = [(1, ex_m1)]\<rparr>],
      trackables = [2 \<mapsto> \<lparr>m_callbacks =
         [\<lparr>cb_function = Disconnect_trackable, cb_notifier = Some 1, cb_object = Some 2\<rparr>]\<rparr>],
      next_node = 2\<rparr>"

definition ex_assigned :: state where
  "ex_assigned =
     \<lparr>notifiers = [1 \<mapsto> \<lparr>m_listeners = [(0, ex_m1)]\<rparr>, 3 \<mapsto> \<lparr>m_listeners = [(2, ex_m1)]\<rparr>],
      trackables = [2 \<mapsto> \<lparr>m_callbacks =
         [\<lparr>cb_function = Disconnect_trackable, cb_notifier = Some 1, cb_object = Some 2\<rparr>]\<rparr>],
      next_node = 3\<rparr>"

definition ex_pair :: state where
  "ex_pair =
     \<lparr>notifiers = [1 \<mapsto> \<lparr>m_listeners = []\<rparr>, 3 \<mapsto> \<lparr>m_listeners = []\<rparr>],
      trackables = [2 \<mapsto> \<lparr>m_callbacks = []\<rparr>],
      next_node = 0\<rparr>"

definition ex_acts :: "operation list" where
  "ex_acts =
     [Connect 1 ex_m2, Connect 1 ex_free,
      Disconnect \<lparr>m_notifier = Some 1, m_listener = Node 1\<rparr>,
      Copy_construct 3 1]"

definition ex_later :: state where
  "ex_later =
     \<lparr>notifiers = [1 \<mapsto> \<lparr>m_listeners = [(2, ex_free), (0, ex_m1)]\<rparr>,
                   3 \<mapsto> \<lparr>m_listeners = [(3, ex_free), (4, ex_m1)]\<rparr>],
      trackables = [2 \<mapsto> \<lparr>m_callbacks =
         [\<lparr>cb_function = Disconnect_trackable, cb_notifier = Some 1, cb_object = Some 2\<rparr>,
          \<lparr>cb_function = Disconnect_trackable, cb_notifier = Some 1, cb_object = Some 2\<rparr>]\<rparr>],
      next_node = 5\<rparr>"

text \<open>
  A store is well formed when no list holds a node twice and every node in a list has
  been handed out by the allocator. Every operation of the library keeps a store so.
\<close>

definition wf_store :: "state \<Rightarrow> bool" where
  "wf_store s =
     (\<forall>n N. notifiers s n = Some N \<longrightarrow>
        distinct (map fst (m_listeners N))
        \<and> list_all (\<lambda>nd. nd < next_node s) (map fst (m_listeners N)))"

section \<open>Evaluating the examples\<close>

lemmas ex_defs =
  ex_store_def ex_free_def ex_m1_def ex_m2_def make_function_def make_method_def
  and_then_def listeners_of_def callbacks_of_def

lemmas op_defs =
  connect_def obj_track_def obj_untrack_def track_def untrack_def is_trackable_def
  get_object_def list_begin_def disconnect_obj_def std_remove_if_def remove_if_def
  remove_if_loop.simps iter_at_def disconnect_all_def disconnect_iter_def
  connection_disconnect_def disconnect_trackable_def callback_call_def
  trackable_destructor_def notifier_destructor_def forward_list_remove_if_def

section \<open>The containers\<close>

text \<open>Erasing at a node that is in the list unlinks it and nothing else.\<close>

lemma erase_at:
  "nd \<notin> fst ` set pre \<Longrightarrow> erase (pre @ (nd, x) # post) (Node nd) = Inr (pre @ post)"
  by (induction pre) (auto split: sum.splits)

lemma erase_nth:
  assumes "distinct (map fst l)" and "j < length l"
  shows "erase l (Node (fst (l ! j))) = Inr (take j l @ drop (Suc j) l)"
proof -
  have split: "l = take j l @ (fst (l ! j), snd (l ! j)) # drop (Suc j) l"
    using assms(2) by (simp add: id_take_nth_drop [symmetric])
  have "distinct (map fst (take j l) @ fst (l ! j) # map fst (drop (Suc j) l))"
    using assms(1) by (subst (asm) split) simp
  then have "fst (l ! j) \<notin> fst ` set (take j l)" by auto
  from erase_at [OF this, of "snd (l ! j)" "drop (Suc j) l"] split show ?thesis by simp
qed

lemma erase_subset: "erase l it = Inr l' \<Longrightarrow> set l' \<subseteq> set l"
  by (induction l it arbitrary: l' rule: erase.induct) (auto split: if_splits sum.splits)

lemma erase_distinct:
  "erase l it = Inr l' \<Longrightarrow> distinct (map fst l) \<Longrightarrow> distinct (map fst l')"
proof (induction l it arbitrary: l' rule: erase.induct)
  case (3 nd x rest n)
  show ?case
  proof (cases "nd = n")
    case True
    with "3.prems" show ?thesis by simp
  next
    case False
    with "3.prems"(1) obtain rest' where r: "erase rest (Node n) = Inr rest'"
      and l': "l' = (nd, x) # rest'"
      by (auto split: sum.splits)
    from "3.IH" [OF False r] "3.prems"(2) have "distinct (map fst rest')" by simp
    moreover from erase_subset [OF r] "3.prems"(2) have "nd \<notin> fst ` set rest'" by auto
    ultimately show ?thesis using l' by simp
  qed
qed simp_all

lemma erase_keeps:
  "erase l it = Inr l' \<Longrightarrow> (nd, x) \<in> set l \<Longrightarrow> it \<noteq> Node nd \<Longrightarrow> (nd, x) \<in> set l'"
  by (induction l it arbitrary: l' rule: erase.induct) (auto split: if_splits sum.splits)

text \<open>
  \<^verbatim>\<open>std::remove_if\<close> returns the position \<open>k\<close> after the elements it keeps, and leaves
  in the sequence the kept elements, in their order, followed by what the positions from
  \<open>k\<close> on held before. When nothing satisfies the predicate, \<open>k\<close> is the end.
\<close>

lemma find_if_le: "find_if p xs \<le> length xs"
  by (induction xs) auto

lemma find_if_none: "list_all (\<lambda>x. \<not> p x) xs \<Longrightarrow> find_if p xs = length xs"
  by (induction xs) auto

lemma find_if_length_iff: "find_if p xs = length xs \<longleftrightarrow> list_all (\<lambda>x. \<not> p x) xs"
  by (induction xs) auto

lemma find_if_found:
  "find_if p xs < length xs \<Longrightarrow>
     p (xs ! find_if p xs) \<and> filter (\<lambda>x. \<not> p x) (take (find_if p xs) xs) = take (find_if p xs) xs"
  by (induction xs) (auto split: if_splits)

lemma remove_if_none: "list_all (\<lambda>x. \<not> p x) xs \<Longrightarrow> remove_if p xs = (xs, length xs)"
  by (simp add: remove_if_def find_if_none)

lemma remove_if_loop_result:
  assumes "first \<le> i" and "i < length xs0"
    and "first = length (filter (\<lambda>x. \<not> p x) (take (Suc i) xs0))"
    and "xs = filter (\<lambda>x. \<not> p x) (take (Suc i) xs0) @ drop first xs0"
  shows "remove_if_loop p xs first i =
           (filter (\<lambda>x. \<not> p x) xs0 @ drop (length (filter (\<lambda>x. \<not> p x) xs0)) xs0,
            length (filter (\<lambda>x. \<not> p x) xs0))"
  using assms
proof (induction "length xs0 - i" arbitrary: i first xs)
  case 0
  then show ?case by simp
next
  case (Suc k)
  let ?q = "\<lambda>x. \<not> p x"
  let ?F = "filter ?q (take (Suc i) xs0)"
  have len: "length xs = length xs0"
    using Suc.prems by simp
  show ?case
  proof (cases "Suc i < length xs0")
    case False
    with Suc.prems have "take (Suc i) xs0 = xs0" by simp
    with False Suc.prems len show ?thesis
      by (simp add: remove_if_loop.simps)
  next
    case True
    have nth: "xs ! Suc i = xs0 ! Suc i"
      using Suc.prems True by (simp add: nth_append)
    have tk: "take (Suc (Suc i)) xs0 = take (Suc i) xs0 @ [xs0 ! Suc i]"
      using True by (simp add: take_Suc_conv_app_nth)
    have k: "k = length xs0 - Suc i"
      using Suc.hyps(2) by simp
    show ?thesis
    proof (cases "p (xs0 ! Suc i)")
      case True
      have "remove_if_loop p xs first (Suc i) =
           (filter ?q xs0 @ drop (length (filter ?q xs0)) xs0, length (filter ?q xs0))"
        using Suc.prems \<open>Suc i < length xs0\<close> True tk
        by (intro Suc.hyps(1) [OF k]) auto
      with True nth \<open>Suc i < length xs0\<close> len show ?thesis
        by (subst remove_if_loop.simps) simp
    next
      case False
      have upd: "xs[first := xs0 ! Suc i] =
                 filter ?q (take (Suc (Suc i)) xs0) @ drop (Suc first) xs0"
      proof -
        have "first < length xs0" using Suc.prems by simp
        then have "(drop first xs0)[0 := xs0 ! Suc i] = xs0 ! Suc i # drop (Suc first) xs0"
          by (simp add: Cons_nth_drop_Suc [symmetric])
        then show ?thesis
          using Suc.prems False tk by (simp add: list_update_append)
      qed
      have "remove_if_loop p (xs[first := xs0 ! Suc i]) (Suc first) (Suc i) =
           (filter ?q xs0 @ drop (length (filter ?q xs0)) xs0, length (filter ?q xs0))"
        using Suc.prems \<open>Suc i < length xs0\<close> False tk upd
        by (intro Suc.hyps(1) [OF k]) auto
      with False nth \<open>Suc i < length xs0\<close> len show ?thesis
        by (subst remove_if_loop.simps) simp
    qed
  qed
qed

lemma remove_if_result:
  "remove_if p xs =
     (filter (\<lambda>x. \<not> p x) xs @ drop (length (filter (\<lambda>x. \<not> p x) xs)) xs,
      length (filter (\<lambda>x. \<not> p x) xs))"
proof (cases "find_if p xs = length xs")
  case True
  then have "list_all (\<lambda>x. \<not> p x) xs" by (simp add: find_if_length_iff)
  then have "filter (\<lambda>x. \<not> p x) xs = xs" by (simp add: list_all_iff)
  with True show ?thesis by (simp add: remove_if_def)
next
  case False
  let ?f = "find_if p xs"
  from False have lt: "?f < length xs"
    using find_if_le [of p xs] by simp
  from find_if_found [OF lt] have px: "p (xs ! ?f)"
    and pre: "filter (\<lambda>x. \<not> p x) (take ?f xs) = take ?f xs" by simp_all
  have tk: "take (Suc ?f) xs = take ?f xs @ [xs ! ?f]"
    using lt by (simp add: take_Suc_conv_app_nth)
  have "remove_if_loop p xs ?f ?f =
     (filter (\<lambda>x. \<not> p x) xs @ drop (length (filter (\<lambda>x. \<not> p x) xs)) xs,
      length (filter (\<lambda>x. \<not> p x) xs))"
    using lt px pre tk by (intro remove_if_loop_result) auto
  with False show ?thesis by (simp add: remove_if_def)
qed

lemma std_remove_if_result:
  "std_remove_if p l =
     (zip (map fst l)
        (filter (\<lambda>x. \<not> p x) (map snd l)
           @ drop (length (filter (\<lambda>x. \<not> p x) (map snd l))) (map snd l)),
      iter_at l (length (filter (\<lambda>x. \<not> p x) (map snd l))))"
  by (simp add: std_remove_if_def remove_if_result)

section \<open>Well-formed stores\<close>

lemma wf_storeD:
  "wf_store s \<Longrightarrow> notifiers s n = Some N \<Longrightarrow>
     distinct (map fst (m_listeners N)) \<and> (\<forall>nd\<in>fst ` set (m_listeners N). nd < next_node s)"
  by (auto simp: wf_store_def list_all_iff)

lemma wf_ex_store: "wf_store ex_store"
  by (simp add: wf_store_def ex_store_def)

lemma wf_store_update:
  assumes "wf_store s"
    and "notifiers s' = (notifiers s)(n \<mapsto> N')"
    and "next_node s \<le> next_node s'"
    and "distinct (map fst (m_listeners N'))"
    and "\<forall>nd\<in>fst ` set (m_listeners N'). nd < next_node s'"
  shows "wf_store s'"
  unfolding wf_store_def list_all_iff
proof (intro allI impI)
  fix m M
  assume m: "notifiers s' m = Some M"
  show "distinct (map fst (m_listeners M)) \<and> (\<forall>nd\<in>set (map fst (m_listeners M)). nd < next_node s')"
  proof (cases "m = n")
    case True
    with m assms(2) have "M = N'" by simp
    with assms(4,5) show ?thesis by simp
  next
    case False
    with m assms(2) have "notifiers s m = Some M" by simp
    from wf_storeD [OF assms(1) this] assms(3) show ?thesis by fastforce
  qed
qed

lemma wf_store_same:
  "notifiers s' = notifiers s \<Longrightarrow> next_node s' = next_node s \<Longrightarrow> wf_store s' = wf_store s"
  by (simp add: wf_store_def)

lemma connect_effect:
  assumes "connect s n l = Inr (s', c)"
  shows "\<exists>N. notifiers s n = Some N
           \<and> notifiers s' = (notifiers s)(n \<mapsto> N\<lparr>m_listeners := (next_node s, l) # m_listeners N\<rparr>)
           \<and> next_node s' = Suc (next_node s)
           \<and> m_notifier c = Some n \<and> m_listener c = Node (next_node s)"
  using assms
  by (auto simp: connect_def obj_track_def Let_def list_begin_def
           split: option.splits sum.splits if_splits)

lemma wf_connect:
  assumes "wf_store s" and "connect s n l = Inr (s', c)"
  shows "wf_store s'"
proof -
  from connect_effect [OF assms(2)] obtain N where n: "notifiers s n = Some N"
    and n': "notifiers s' = (notifiers s)(n \<mapsto> N\<lparr>m_listeners := (next_node s, l) # m_listeners N\<rparr>)"
    and nx: "next_node s' = Suc (next_node s)"
    by blast
  from wf_storeD [OF assms(1) n] have d: "distinct (map fst (m_listeners N))"
    and b: "\<forall>nd\<in>fst ` set (m_listeners N). nd < next_node s" by simp_all
  from b have "next_node s \<notin> fst ` set (m_listeners N)" by auto
  with d b nx show ?thesis
    by (intro wf_store_update [OF assms(1) n']) (auto simp: less_Suc_eq)
qed

lemma wf_connects:
  "wf_store s \<Longrightarrow> connects s n ls = Inr s' \<Longrightarrow> wf_store s'"
proof (induction ls arbitrary: s)
  case Nil
  then show ?case by simp
next
  case (Cons l ls)
  from Cons.prems(2) obtain s1 c where c: "connect s n l = Inr (s1, c)"
    and rest: "connects s1 n ls = Inr s'"
    by (auto split: sum.splits)
  from wf_connect [OF Cons.prems(1) c] rest show ?case by (rule Cons.IH)
qed

lemma wf_erased:
  assumes "wf_store s" and "notifiers s n = Some N"
    and "map fst l = map fst (m_listeners N)" and "erase l it = Inr l'"
    and "notifiers s' = (notifiers s)(n \<mapsto> N\<lparr>m_listeners := l'\<rparr>)"
    and "next_node s' = next_node s"
  shows "wf_store s'"
proof -
  from wf_storeD [OF assms(1,2)] assms(3) have d: "distinct (map fst l)"
    and b: "\<forall>nd\<in>fst ` set l. nd < next_node s"
    by (simp_all flip: set_map)
  from erase_subset [OF assms(4)] b have "\<forall>nd\<in>fst ` set l'. nd < next_node s"
    by auto
  with erase_distinct [OF assms(4) d] assms(6)
  show ?thesis
    by (intro wf_store_update [OF assms(1,5)]) simp_all
qed

lemma wf_disconnect_iter:
  assumes "wf_store s" and "disconnect_iter s n it = Inr s'"
  shows "wf_store s'"
proof -
  from assms(2) obtain N l' where n: "notifiers s n = Some N"
    and e: "erase (m_listeners N) it = Inr l'"
    and s': "notifiers s' = (notifiers s)(n \<mapsto> N\<lparr>m_listeners := l'\<rparr>)" "next_node s' = next_node s"
    by (auto simp: disconnect_iter_def split: option.splits sum.splits)
  from wf_erased [OF assms(1) n refl e s'] show ?thesis .
qed

lemma wf_connection_disconnect:
  assumes "wf_store s" and "connection_disconnect s c = Inr (s', c')"
  shows "wf_store s'"
proof (cases "m_notifier c")
  case None
  with assms show ?thesis by (simp add: connection_disconnect_def)
next
  case (Some n)
  with assms(2) have "disconnect_iter s n (m_listener c) = Inr s'"
    by (auto simp: connection_disconnect_def split: sum.splits)
  from wf_disconnect_iter [OF assms(1) this] show ?thesis .
qed

lemma wf_disconnect_obj:
  assumes "wf_store s" and "disconnect_obj s n obj = Inr s'"
  shows "wf_store s'"
proof -
  let ?p = "\<lambda>lstnr. get_object lstnr = obj"
  from assms(2) obtain N l' it l'' where n: "notifiers s n = Some N"
    and r: "std_remove_if ?p (m_listeners N) = (l', it)"
    and e: "erase l' it = Inr l''"
    and s': "notifiers s' = (notifiers s)(n \<mapsto> N\<lparr>m_listeners := l''\<rparr>)" "next_node s' = next_node s"
    by (auto simp: disconnect_obj_def split: option.splits sum.splits prod.splits)
  have "length (filter (\<lambda>x. \<not> ?p x) (map snd (m_listeners N))) \<le> length (map snd (m_listeners N))"
    by (rule length_filter_le)
  then have "length (filter (\<lambda>x. \<not> ?p x) (map snd (m_listeners N))
               @ drop (length (filter (\<lambda>x. \<not> ?p x) (map snd (m_listeners N)))) (map snd (m_listeners N)))
             = length (map fst (m_listeners N))"
    by (simp del: filter_map)
  then have "map fst (zip (map fst (m_listeners N)) (filter (\<lambda>x. \<not> ?p x) (map snd (m_listeners N))
               @ drop (length (filter (\<lambda>x. \<not> ?p x) (map snd (m_listeners N)))) (map snd (m_listeners N))))
             = map fst (m_listeners N)"
    by (metis map_fst_zip)
  with r have "map fst l' = map fst (m_listeners N)"
    by (simp add: std_remove_if_result)
  from wf_erased [OF assms(1) n this e s'] show ?thesis .
qed

lemma wf_disconnect_all:
  assumes "wf_store s" and "disconnect_all s n = Inr s'"
  shows "wf_store s'"
proof -
  from assms(2) obtain N where
    "notifiers s' = (notifiers s)(n \<mapsto> N\<lparr>m_listeners := []\<rparr>)" "next_node s' = next_node s"
    by (auto simp: disconnect_all_def split: option.splits)
  then show ?thesis by (intro wf_store_update [OF assms(1)]) auto
qed

lemma wf_run_callbacks:
  "wf_store s \<Longrightarrow> run_callbacks s cbs = Inr s' \<Longrightarrow> wf_store s'"
proof (induction cbs arbitrary: s)
  case Nil
  then show ?case by simp
next
  case (Cons cb cbs)
  from Cons.prems(2) obtain s1 where s1: "callback_call s cb = Inr s1"
    and rest: "run_callbacks s1 cbs = Inr s'"
    by (auto split: sum.splits)
  from s1 obtain k where "disconnect_obj s k (cb_object cb) = Inr s1"
    by (auto simp: callback_call_def disconnect_trackable_def split: track_func.splits option.splits)
  from wf_disconnect_obj [OF Cons.prems(1) this] rest show ?case
    by (rule Cons.IH)
qed

lemma wf_trackable_destructor:
  assumes "wf_store s" and "trackable_destructor s a = Inr s'"
  shows "wf_store s'"
proof -
  from assms(2) have "\<exists>cbs s1. run_callbacks s cbs = Inr s1
      \<and> notifiers s' = notifiers s1 \<and> next_node s' = next_node s1"
    by (auto simp: trackable_destructor_def split: option.splits sum.splits) blast
  then obtain cbs s1 where r: "run_callbacks s cbs = Inr s1"
    and s': "notifiers s' = notifiers s1" "next_node s' = next_node s1"
    by blast
  from wf_run_callbacks [OF assms(1) r] wf_store_same [OF s'] show ?thesis by simp
qed

lemma untrack_listeners_frame:
  "untrack_listeners s n ls = Inr s' \<Longrightarrow> notifiers s' = notifiers s \<and> next_node s' = next_node s"
proof (induction ls arbitrary: s)
  case Nil
  then show ?case by simp
next
  case (Cons l ls)
  show ?case
  proof (cases "is_trackable l")
    case False
    with Cons show ?thesis by simp
  next
    case True
    with Cons.prems obtain s1 where s1: "obj_untrack s (get_object l) (Some n) = Inr s1"
      and rest: "untrack_listeners s1 n ls = Inr s'"
      by (auto split: sum.splits)
    from s1 have "notifiers s1 = notifiers s \<and> next_node s1 = next_node s"
      by (auto simp: obj_untrack_def split: option.splits)
    with Cons.IH [OF rest] show ?thesis by simp
  qed
qed

lemma wf_notifier_destructor:
  assumes "wf_store s" and "notifier_destructor s n = Inr s'"
  shows "wf_store s'"
proof -
  from assms(2) have "\<exists>ls s1. untrack_listeners s n ls = Inr s1
      \<and> notifiers s' = (notifiers s1)(n := None) \<and> next_node s' = next_node s1"
    by (auto simp: notifier_destructor_def split: option.splits sum.splits) blast
  then obtain ls s1 where u: "untrack_listeners s n ls = Inr s1"
    and s': "notifiers s' = (notifiers s1)(n := None)" "next_node s' = next_node s1"
    by blast
  from untrack_listeners_frame [OF u] s' have
    "notifiers s' = (notifiers s)(n := None)" "next_node s' = next_node s" by simp_all
  with assms(1) show ?thesis
    unfolding wf_store_def by (auto split: if_splits)
qed

lemma wf_copy:
  assumes "wf_store s"
    and "notifier_copy s this other = Inr s' \<or> notifier_assign s this other = Inr s'"
  shows "wf_store s'"
proof (cases "s' = s")
  case True
  with assms(1) show ?thesis by simp
next
  case False
  with assms(2) have "\<exists>N N'. notifiers s other = Some N
      \<and> notifiers s' = (notifiers s)(this \<mapsto> N')
      \<and> m_listeners N' = copy_list (next_node s) (m_listeners N)
      \<and> next_node s' = next_node s + length (m_listeners N)"
    by (auto simp: notifier_copy_def notifier_assign_def split: option.splits if_splits)
  then obtain N N' where n: "notifiers s other = Some N"
    and s': "notifiers s' = (notifiers s)(this \<mapsto> N')"
      "m_listeners N' = copy_list (next_node s) (m_listeners N)"
      "next_node s' = next_node s + length (m_listeners N)"
    by blast
  have "map fst (m_listeners N') = [next_node s ..< next_node s + length (m_listeners N)]"
    using s'(2) by (simp add: copy_list_def)
  then have "distinct (map fst (m_listeners N'))"
    and "\<forall>nd\<in>fst ` set (m_listeners N'). nd < next_node s'"
    using s'(3) by (simp_all flip: set_map)
  with s'(3) show ?thesis
    by (intro wf_store_update [OF assms(1) s'(1)]) auto
qed

section \<open>What the operations leave alone\<close>

text \<open>
  \<^verbatim>\<open>disconnect(obj)\<close> changes the list of its own notifier only, and the destructor
  of a trackable object the lists of the notifiers in its registrations only.
\<close>

lemma disconnect_obj_frame:
  assumes "disconnect_obj s n obj = Inr s'"
  shows "trackables s' = trackables s \<and> next_node s' = next_node s
         \<and> (\<forall>m. m \<noteq> n \<longrightarrow> notifiers s' m = notifiers s m)"
  using assms
  by (auto simp: disconnect_obj_def split: option.splits prod.splits sum.splits)

lemma run_callbacks_frame:
  assumes "run_callbacks s cbs = Inr s'"
  shows "trackables s' = trackables s
         \<and> (\<forall>m. (\<forall>cb\<in>set cbs. cb_notifier cb \<noteq> Some m) \<longrightarrow> notifiers s' m = notifiers s m)"
  using assms
proof (induction cbs arbitrary: s)
  case Nil
  then show ?case by simp
next
  case (Cons cb cbs)
  from Cons.prems obtain s1 where s1: "callback_call s cb = Inr s1"
    and rest: "run_callbacks s1 cbs = Inr s'"
    by (auto split: sum.splits)
  from s1 obtain k where k: "cb_notifier cb = Some k" "disconnect_obj s k (cb_object cb) = Inr s1"
    by (auto simp: callback_call_def disconnect_trackable_def split: track_func.splits option.splits)
  from disconnect_obj_frame [OF k(2)] Cons.IH [OF rest] k(1)
  show ?case by auto
qed

lemma trackable_destructor_frame:
  assumes "trackable_destructor s a = Inr s'"
    and "\<forall>cb\<in>set (callbacks_of s a). cb_notifier cb \<noteq> Some m"
  shows "notifiers s' m = notifiers s m"
  using assms run_callbacks_frame
  by (fastforce simp: trackable_destructor_def callbacks_of_def split: option.splits sum.splits)

text \<open>
  Every operation keeps a store well formed, and one that spares an element leaves it
  in its list, with the listener it holds.
\<close>

lemma wf_exec:
  assumes "wf_store s" and "exec s act = Inr s'"
  shows "wf_store s'"
proof (cases act)
  case (Connect m l')
  with assms(2) obtain c where "connect s m l' = Inr (s', c)"
    by (cases "connect s m l'") auto
  from wf_connect [OF assms(1) this] show ?thesis .
next
  case (Disconnect c)
  with assms(2) obtain c' where "connection_disconnect s c = Inr (s', c')"
    by (cases "connection_disconnect s c") auto
  from wf_connection_disconnect [OF assms(1) this] show ?thesis .
next
  case (Disconnect_obj m obj)
  with assms show ?thesis by (auto dest: wf_disconnect_obj)
next
  case (Disconnect_all m)
  with assms show ?thesis by (auto dest: wf_disconnect_all)
next
  case (Destroy_notifier m)
  with assms show ?thesis by (auto dest: wf_notifier_destructor)
next
  case (Copy_construct this other)
  with assms show ?thesis by (auto dest: wf_copy)
next
  case (Copy_assign this other)
  with assms show ?thesis by (auto dest: wf_copy)
next
  case (Destroy_trackable a)
  with assms show ?thesis by (auto dest: wf_trackable_destructor)
qed

lemma exec_keeps:
  assumes "exec s act = Inr s'" and "spares n (Node nd) s act"
    and "notifiers s n = Some N" and "(nd, l) \<in> set (m_listeners N)"
  shows "\<exists>N'. notifiers s' n = Some N' \<and> (nd, l) \<in> set (m_listeners N')"
proof (cases act)
  case (Connect m l')
  with assms(1) obtain c where "connect s m l' = Inr (s', c)"
    by (cases "connect s m l'") auto
  from connect_effect [OF this] obtain M where "notifiers s m = Some M"
    "notifiers s' = (notifiers s)(m \<mapsto> M\<lparr>m_listeners := (next_node s, l') # m_listeners M\<rparr>)"
    by blast
  with assms(3,4) show ?thesis by (cases "m = n") auto
next
  case (Disconnect c)
  with assms(1) obtain c' where d: "connection_disconnect s c = Inr (s', c')"
    by (cases "connection_disconnect s c") auto
  show ?thesis
  proof (cases "m_notifier c")
    case None
    with d assms(3,4) show ?thesis by (simp add: connection_disconnect_def)
  next
    case (Some m)
    with d have "disconnect_iter s m (m_listener c) = Inr s'"
      by (auto simp: connection_disconnect_def split: sum.splits)
    then obtain M l' where m: "notifiers s m = Some M"
      and e: "erase (m_listeners M) (m_listener c) = Inr l'"
      and s': "notifiers s' = (notifiers s)(m \<mapsto> M\<lparr>m_listeners := l'\<rparr>)"
      by (auto simp: disconnect_iter_def split: option.splits sum.splits)
    show ?thesis
    proof (cases "m = n")
      case False
      with s' assms(3,4) show ?thesis by auto
    next
      case True
      with Some assms(2) Disconnect have "m_listener c \<noteq> Node nd" by simp
      from erase_keeps [OF e _ this, of l] m True assms(3,4) s' show ?thesis by auto
    qed
  qed
next
  case (Disconnect_obj m obj)
  with assms(1,2) have "disconnect_obj s m obj = Inr s'" "n \<noteq> m" by auto
  from disconnect_obj_frame [OF this(1)] this(2) assms(3,4) show ?thesis by auto
next
  case (Disconnect_all m)
  with assms show ?thesis by (auto simp: disconnect_all_def split: option.splits)
next
  case (Destroy_notifier m)
  with assms(1,2) have d: "notifier_destructor s m = Inr s'" and "m \<noteq> n" by auto
  from d have "\<exists>ls s1. untrack_listeners s m ls = Inr s1 \<and> notifiers s' = (notifiers s1)(m := None)"
    by (auto simp: notifier_destructor_def split: option.splits sum.splits) blast
  then obtain ls s1 where "untrack_listeners s m ls = Inr s1" "notifiers s' = (notifiers s1)(m := None)"
    by blast
  with untrack_listeners_frame [OF this(1)] \<open>m \<noteq> n\<close> assms(3,4) show ?thesis by auto
next
  case (Copy_construct this other)
  with assms show ?thesis
    by (auto simp: notifier_copy_def split: option.splits)
next
  case (Copy_assign this other)
  with assms show ?thesis
    by (auto simp: notifier_assign_def split: option.splits if_splits)
next
  case (Destroy_trackable a)
  with assms(1,2) have d: "trackable_destructor s a = Inr s'"
    and "\<forall>cb\<in>set (callbacks_of s a). cb_notifier cb \<noteq> Some n"
    by (auto simp: list_all_iff)
  from trackable_destructor_frame [OF this] assms(3,4) show ?thesis by simp
qed

lemma run_keeps:
  assumes "wf_store s" and "run s acts = Inr s'" and "sparing n (Node nd) s acts"
    and "notifiers s n = Some N" and "(nd, l) \<in> set (m_listeners N)"
  shows "wf_store s' \<and> (\<exists>N'. notifiers s' n = Some N' \<and> (nd, l) \<in> set (m_listeners N'))"
  using assms
proof (induction acts arbitrary: s N)
  case Nil
  then show ?case by simp
next
  case (Cons act acts)
  from Cons.prems(2) obtain s1 where s1: "exec s act = Inr s1" and rest: "run s1 acts = Inr s'"
    by (auto split: sum.splits)
  from Cons.prems(3) s1 have sp: "spares n (Node nd) s act" and sp': "sparing n (Node nd) s1 acts"
    by simp_all
  from exec_keeps [OF s1 sp Cons.prems(4,5)] obtain N1 where
    n1: "notifiers s1 n = Some N1" "(nd, l) \<in> set (m_listeners N1)" by blast
  from Cons.IH [OF wf_exec [OF Cons.prems(1) s1] rest sp' n1] show ?case .
qed

section \<open>trackable::untrack\<close>

text \<open>
  C10. Untracking a notifier that has no registration in the object's callback list
  leaves the object as it was, and the call on a live object returns with the store
  unchanged; untracking the same notifier a second time changes nothing more.
\<close>

theorem untrack_absent_noop_idempotent:
  "(list_all (\<lambda>c. cb_notifier c \<noteq> n) (m_callbacks t) \<longrightarrow>
      untrack t n = t \<and> (trackables s a = Some t \<longrightarrow> obj_untrack s (Some a) n = Inr s))
   \<and> untrack (untrack t n) n = untrack t n"
proof -
  have "untrack t n = t" if "list_all (\<lambda>c. cb_notifier c \<noteq> n) (m_callbacks t)"
    using that by (simp add: untrack_def forward_list_remove_if_def list_all_iff)
  moreover have "obj_untrack s (Some a) n = Inr s" if "untrack t n = t" "trackables s a = Some t"
    using that by (simp add: obj_untrack_def fun_upd_idem)
  moreover have "untrack (untrack t n) n = untrack t n"
    by (simp add: untrack_def forward_list_remove_if_def)
  ultimately show ?thesis by blast
qed

theorem untrack_absent_noop_idempotent_witness:
  "list_all (\<lambda>c. cb_notifier c \<noteq> Some 3) (callbacks_of ex_one 2)
   \<and> obj_untrack ex_one (Some 2) (Some 3) = Inr ex_one
   \<and> map_sum id (\<lambda>s. callbacks_of s 2) (obj_untrack ex_one (Some 2) (Some 1)) = Inr []
   \<and> and_then (obj_untrack ex_one (Some 2) (Some 1)) (\<lambda>s. obj_untrack s (Some 2) (Some 1))
       = obj_untrack ex_one (Some 2) (Some 1)"
proof -
  let ?t = "\<lparr>m_callbacks =
      [\<lparr>cb_function = Disconnect_trackable, cb_notifier = Some 1, cb_object = Some 2\<rparr>]\<rparr>"
  have t: "trackables ex_one 2 = Some ?t"
    by (simp add: ex_one_def)
  have absent: "list_all (\<lambda>c. cb_notifier c \<noteq> Some 3) (m_callbacks ?t)"
    by simp
  from untrack_absent_noop_idempotent [of "Some 3" ?t ex_one 2] t absent
  have "obj_untrack ex_one (Some 2) (Some 3) = Inr ex_one"
    by blast
  moreover have "map_sum id (\<lambda>s. callbacks_of s 2) (obj_untrack ex_one (Some 2) (Some 1)) = Inr []"
    by (simp add: ex_one_def obj_untrack_def untrack_def forward_list_remove_if_def callbacks_of_def)
  moreover have "and_then (obj_untrack ex_one (Some 2) (Some 1)) (\<lambda>s. obj_untrack s (Some 2) (Some 1))
       = obj_untrack ex_one (Some 2) (Some 1)"
    by (simp add: ex_one_def obj_untrack_def untrack_def forward_list_remove_if_def and_then_def)
  ultimately show ?thesis
    using t by (simp add: callbacks_of_def)
qed

section \<open>connection::disconnect, called again\<close>

text \<open>
  C5. A connection's \<^verbatim>\<open>disconnect\<close> that returns leaves the connection spent
  (\<^verbatim>\<open>m_notifier\<close> is null), and every further \<^verbatim>\<open>disconnect\<close> on it, in whatever state
  the store then is, changes neither the store nor the connection.
\<close>

theorem connection_disconnect_idempotent:
  "connection_disconnect s c = Inr (s', c') \<Longrightarrow>
     m_notifier c' = None \<and> connection_disconnect s'' c' = Inr (s'', c')"
  by (auto simp: connection_disconnect_def split: option.splits sum.splits)

theorem connection_disconnect_idempotent_witness:
  "connect ex_store 1 ex_free =
     Inr (ex_store\<lparr>notifiers := [1 \<mapsto> \<lparr>m_listeners = [(0, ex_free)]\<rparr>], next_node := 1\<rparr>,
          \<lparr>m_notifier = Some 1, m_listener = Node 0\<rparr>)
   \<and> connection_disconnect
        (ex_store\<lparr>notifiers := [1 \<mapsto> \<lparr>m_listeners = [(0, ex_free)]\<rparr>], next_node := 1\<rparr>)
        \<lparr>m_notifier = Some 1, m_listener = Node 0\<rparr>
      = Inr (ex_store\<lparr>next_node := 1\<rparr>, \<lparr>m_notifier = None, m_listener = Node 0\<rparr>)
   \<and> connection_disconnect (ex_store\<lparr>next_node := 1\<rparr>) \<lparr>m_notifier = None, m_listener = Node 0\<rparr>
      = Inr (ex_store\<lparr>next_node := 1\<rparr>, \<lparr>m_notifier = None, m_listener = Node 0\<rparr>)"
proof -
  have first: "connection_disconnect
        (ex_store\<lparr>notifiers := [1 \<mapsto> \<lparr>m_listeners = [(0, ex_free)]\<rparr>], next_node := 1\<rparr>)
        \<lparr>m_notifier = Some 1, m_listener = Node 0\<rparr>
      = Inr (ex_store\<lparr>next_node := 1\<rparr>, \<lparr>m_notifier = None, m_listener = Node 0\<rparr>)"
    by (simp add: ex_defs op_defs)
  have issued: "connect ex_store 1 ex_free =
     Inr (ex_store\<lparr>notifiers := [1 \<mapsto> \<lparr>m_listeners = [(0, ex_free)]\<rparr>], next_node := 1\<rparr>,
          \<lparr>m_notifier = Some 1, m_listener = Node 0\<rparr>)"
    by (simp add: ex_defs op_defs)
  from connection_disconnect_idempotent [OF first, of "ex_store\<lparr>next_node := 1\<rparr>"] first issued
  show ?thesis by simp
qed

section \<open>notifier::disconnect_all\<close>

text \<open>
  C8. On a live notifier \<^verbatim>\<open>disconnect_all\<close> returns, the notifier's list is empty
  afterwards, and no trackable object is touched: the callback list of every object is
  what it was, so an object that held a registration for this notifier still holds it.
\<close>

theorem disconnect_all_clears_without_untracking:
  "notifiers s n = Some N \<Longrightarrow>
     (\<exists>s'. disconnect_all s n = Inr s'
        \<and> map_option m_listeners (notifiers s' n) = Some []
        \<and> trackables s' = trackables s
        \<and> callbacks_of s' = callbacks_of s)"
  by (simp add: disconnect_all_def callbacks_of_def fun_eq_iff)

theorem disconnect_all_clears_without_untracking_witness:
  "(\<exists>s1 c s2. connect ex_store 1 ex_m1 = Inr (s1, c)
      \<and> listeners_of s1 1 = [ex_m1]
      \<and> disconnect_all s1 1 = Inr s2
      \<and> map_option m_listeners (notifiers s2 1) = Some []
      \<and> trackables s2 = trackables s1
      \<and> callbacks_of s2 2 =
          [\<lparr>cb_function = Disconnect_trackable, cb_notifier = Some 1, cb_object = Some 2\<rparr>])"
proof -
  obtain s1 c where c: "connect ex_store 1 ex_m1 = Inr (s1, c)"
    and n: "notifiers s1 1 = Some \<lparr>m_listeners = [(0, ex_m1)]\<rparr>"
    and cb: "callbacks_of s1 2 =
      [\<lparr>cb_function = Disconnect_trackable, cb_notifier = Some 1, cb_object = Some 2\<rparr>]"
    by (simp add: ex_defs op_defs)
  from disconnect_all_clears_without_untracking [OF n] obtain s2 where
    "disconnect_all s1 1 = Inr s2" "map_option m_listeners (notifiers s2 1) = Some []"
    "trackables s2 = trackables s1" "callbacks_of s2 = callbacks_of s1"
    by blast
  with c n cb show ?thesis by (simp add: listeners_of_def)
qed

section \<open>notifier::disconnect(const TObj*)\<close>

text \<open>
  When no listener of the notifier has the object, \<^verbatim>\<open>std::remove_if\<close> returns
  \<^verbatim>\<open>m_listeners.end()\<close>, and the one-iterator \<^verbatim>\<open>erase\<close> is called on it.
\<close>

lemma disconnect_obj_no_match:
  assumes "notifiers s n = Some N"
    and "list_all (\<lambda>l. get_object l \<noteq> obj) (map snd (m_listeners N))"
  shows "disconnect_obj s n obj = Inl Undefined_behaviour"
  using assms by (simp add: disconnect_obj_def std_remove_if_def remove_if_none iter_at_def)

text \<open>
  When some listener has the object, \<^verbatim>\<open>erase\<close> unlinks the one node at the returned
  position: the list is one element shorter, however many listeners have the object,
  and what follows the kept listeners is the old tail of the list.
\<close>

lemma disconnect_obj_one_node:
  assumes "notifiers s n = Some N"
    and "distinct (map fst (m_listeners N))"
    and "\<not> list_all (\<lambda>l. get_object l \<noteq> obj) (map snd (m_listeners N))"
  shows "\<exists>s' N'. disconnect_obj s n obj = Inr s'
           \<and> notifiers s' n = Some N'
           \<and> map snd (m_listeners N') =
               filter (\<lambda>l. get_object l \<noteq> obj) (map snd (m_listeners N))
               @ drop (Suc (length (filter (\<lambda>l. get_object l \<noteq> obj) (map snd (m_listeners N)))))
                   (map snd (m_listeners N))
           \<and> Suc (length (m_listeners N')) = length (m_listeners N)"
proof -
  let ?l = "m_listeners N"
  let ?vs = "map snd ?l"
  let ?q = "\<lambda>l. \<not> get_object l = obj"
  let ?k = "length (filter ?q ?vs)"
  let ?vs' = "filter ?q ?vs @ drop ?k ?vs"
  let ?l' = "zip (map fst ?l) ?vs'"
  have "filter ?q ?vs \<noteq> ?vs"
    using assms(3) by (simp add: list_all_iff filter_id_conv)
  then have "?k \<noteq> length ?vs"
    by (metis length_filter_le filter_True length_filter_less linorder_not_less order_le_imp_less_or_eq)
  from le_neq_implies_less [OF length_filter_le this] have k: "?k < length ?l"
    by simp
  have len': "length ?vs' = length ?l"
    using k by simp
  have fst': "map fst ?l' = map fst ?l"
    using len' by simp
  have it: "iter_at ?l ?k = Node (fst (?l' ! ?k))"
    using k len' by (simp add: iter_at_def)
  have "erase ?l' (Node (fst (?l' ! ?k))) = Inr (take ?k ?l' @ drop (Suc ?k) ?l')"
    using assms(2) k len' fst' by (intro erase_nth) simp_all
  then have er: "erase ?l' (iter_at ?l ?k) = Inr (take ?k ?l' @ drop (Suc ?k) ?l')"
    using it by simp
  have snd': "map snd ?l' = ?vs'"
    using len' by simp
  have vals: "map snd (take ?k ?l' @ drop (Suc ?k) ?l') = filter ?q ?vs @ drop (Suc ?k) ?vs"
  proof -
    have "map snd (take ?k ?l' @ drop (Suc ?k) ?l') = take ?k ?vs' @ drop (Suc ?k) ?vs'"
      by (simp only: map_append take_map [symmetric] drop_map [symmetric] snd')
    then show ?thesis by simp
  qed
  have cnt: "Suc (length (take ?k ?l' @ drop (Suc ?k) ?l')) = length ?l"
    using k len' by simp
  show ?thesis
    using assms(1) er vals cnt
    by (simp add: disconnect_obj_def std_remove_if_result)
qed

text \<open>
  C6. The claim is that disconnecting an object no listener is bound to returns and
  changes nothing. On the empty notifier of the example store the call is undefined
  behaviour; and after one listener of the object at address 2 is connected, a first
  \<^verbatim>\<open>disconnect\<close> of the object empties the list and a second one is undefined behaviour.
\<close>

theorem disconnect_obj_absent_is_undefined:
  "disconnect_obj ex_store 1 (Some 2) = Inl Undefined_behaviour
   \<and> and_then (connect ex_store 1 ex_m1)
        (\<lambda>(s, c). map_sum id (\<lambda>s'. listeners_of s' 1) (disconnect_obj s 1 (Some 2))) = Inr []
   \<and> and_then (connect ex_store 1 ex_m1)
        (\<lambda>(s, c). and_then (disconnect_obj s 1 (Some 2)) (\<lambda>s'. disconnect_obj s' 1 (Some 2)))
      = Inl Undefined_behaviour"
  by (simp add: ex_defs op_defs)

text \<open>
  C1. The claim is that \<^verbatim>\<open>disconnect(obj)\<close> removes every listener bound to \<open>obj\<close> and
  keeps the others. Connect \<open>ex_m2\<close>, \<open>ex_free\<close>, \<open>ex_m1\<close> in this order, so that the list
  is \<open>ex_m1, ex_free, ex_m2\<close> with two listeners bound to the object at address 2:
  \<^verbatim>\<open>disconnect\<close> of that object leaves \<open>ex_free, ex_m2\<close>, one listener fewer and one
  listener of the object still connected. Connected in the order \<open>ex_free\<close>, \<open>ex_m2\<close>,
  \<open>ex_m1\<close>, the same call leaves \<open>ex_free\<close> twice, and the destructor of the object,
  which calls \<^verbatim>\<open>disconnect\<close> once per registration, is undefined behaviour at its second
  call.
\<close>

theorem disconnect_obj_leaves_bound_listener:
  "map_sum id (\<lambda>s. listeners_of s 1) (connects ex_store 1 [ex_m2, ex_free, ex_m1])
     = Inr [ex_m1, ex_free, ex_m2]
   \<and> map_sum id (\<lambda>s. listeners_of s 1)
       (and_then (connects ex_store 1 [ex_m2, ex_free, ex_m1]) (\<lambda>s. disconnect_obj s 1 (Some 2)))
     = Inr [ex_free, ex_m2]
   \<and> get_object ex_m2 = Some 2
   \<and> map_sum id (\<lambda>s. listeners_of s 1)
       (and_then (connects ex_store 1 [ex_free, ex_m2, ex_m1]) (\<lambda>s. disconnect_obj s 1 (Some 2)))
     = Inr [ex_free, ex_free]
   \<and> and_then (connects ex_store 1 [ex_free, ex_m2, ex_m1]) (\<lambda>s. trackable_destructor s 2)
     = Inl Undefined_behaviour"
  by (simp add: ex_defs op_defs)

section \<open>notifier::operator()\<close>

lemma notify_loop_append:
  "notify_loop prog (pre @ rest) params w =
     (let r = notify_loop prog pre params w
      in if thrown r = None
         then (let r2 = notify_loop prog rest params (world r)
               in r2\<lparr>invoked := invoked r @ invoked r2\<rparr>)
         else r)"
  by (induction pre arbitrary: w) (auto simp: Let_def split: prod.splits option.splits)

lemma notify_loop_returns:
  "thrown (notify_loop prog ls params w) = None \<Longrightarrow>
     invoked (notify_loop prog ls params w) = map (\<lambda>l. (l, params)) ls"
  by (induction ls arbitrary: w) (auto simp: Let_def split: prod.splits option.splits)


text \<open>
  C7. Let the notifier's list be \<open>pre\<close>, then \<open>l\<close>, then \<open>post\<close>; let the listeners of
  \<open>pre\<close> return, and let \<open>l\<close>, called in the world they leave, throw \<open>e\<close>. Then the
  broadcast ends with \<open>e\<close> thrown to the caller, and the listeners it has invoked are
  those of \<open>pre\<close> and \<open>l\<close>: no listener of \<open>post\<close> is invoked.
\<close>

theorem operator_call_throw_aborts:
  assumes "notifiers s n = Some N"
    and "map snd (m_listeners N) = pre @ l # post"
    and "thrown (notify_loop prog pre params w) = None"
    and "listener_call prog l params (world (notify_loop prog pre params w)) = (w', Some e)"
  shows "operator_call prog s n params w =
           Inr \<lparr>invoked = map (\<lambda>x. (x, params)) (pre @ [l]), world = w', thrown = Some e\<rparr>"
proof -
  have "invoked (notify_loop prog pre params w) = map (\<lambda>x. (x, params)) pre"
    using assms(3) by (rule notify_loop_returns)
  moreover have "notify_loop prog (l # post) params (world (notify_loop prog pre params w)) =
      \<lparr>invoked = [(l, params)], world = w', thrown = Some e\<rparr>"
    using assms(4) by simp
  ultimately show ?thesis
    using assms(1,2,3) by (simp add: operator_call_def notify_loop_append Let_def)
qed

theorem operator_call_throw_aborts_witness:
  "operator_call ex_prog
      (ex_store\<lparr>notifiers := [1 \<mapsto> \<lparr>m_listeners = [(2, ex_m1), (1, ex_m2), (0, ex_free)]\<rparr>]\<rparr>) 1 5 []
    = Inr \<lparr>invoked = [(ex_m1, 5), (ex_m2, 5)], world = [10], thrown = Some 1\<rparr>"
  using operator_call_throw_aborts [of
      "ex_store\<lparr>notifiers := [1 \<mapsto> \<lparr>m_listeners = [(2, ex_m1), (1, ex_m2), (0, ex_free)]\<rparr>]\<rparr>"
      1 "\<lparr>m_listeners = [(2, ex_m1), (1, ex_m2), (0, ex_free)]\<rparr>" "[ex_m1]" ex_m2 "[ex_free]"
      ex_prog 5 "[]" "[10]" 1]
  by (simp add: ex_defs ex_prog_def listener_call_def)

section \<open>notifier::connect, then a broadcast\<close>






section \<open>connection::disconnect, first call\<close>

text \<open>
  C3, amended. Let \<^verbatim>\<open>connect\<close> in a well-formed store return a connection for the
  listener \<open>l\<close>, and let any operations that spare its element run and return (further
  connects on any notifier, disconnects through other connections, copies, whatever is
  done to other notifiers, broadcasts). Then the element is still in the list of the
  notifier and holds \<open>l\<close>; the first \<^verbatim>\<open>disconnect\<close> on the connection returns, unlinks
  this element and no other, and leaves the connection spent. No \<^verbatim>\<open>untrack\<close> is
  called: every trackable object is as it was, also when the element was the last one
  bound to its object.
\<close>

theorem connection_disconnect_removes_issued:
  assumes "wf_store s0" and "connect s0 n l = Inr (s1, c)"
    and "run s1 acts = Inr s2" and "sparing n (m_listener c) s1 acts"
  shows "\<exists>nd N2 pre post s3 c'.
           m_listener c = Node nd
           \<and> notifiers s2 n = Some N2
           \<and> m_listeners N2 = pre @ (nd, l) # post
           \<and> nd \<notin> fst ` set (pre @ post)
           \<and> connection_disconnect s2 c = Inr (s3, c')
           \<and> notifiers s3 = (notifiers s2)(n \<mapsto> N2\<lparr>m_listeners := pre @ post\<rparr>)
           \<and> trackables s3 = trackables s2
           \<and> m_notifier c' = None"
proof -
  let ?nd = "next_node s0"
  from connect_effect [OF assms(2)] obtain N where
    n1: "notifiers s1 n = Some (N\<lparr>m_listeners := (?nd, l) # m_listeners N\<rparr>)"
    and c: "m_notifier c = Some n" "m_listener c = Node ?nd"
    by auto
  have wf1: "wf_store s1"
    using wf_connect [OF assms(1,2)] .
  from run_keeps [OF wf1 assms(3) _ n1, of ?nd l] assms(4) c(2)
  obtain N2 where wf2: "wf_store s2" and n2: "notifiers s2 n = Some N2"
    and el: "(?nd, l) \<in> set (m_listeners N2)"
    by auto
  from el obtain pre post where sp: "m_listeners N2 = pre @ (?nd, l) # post"
    by (auto simp: in_set_conv_decomp)
  from wf_storeD [OF wf2 n2] sp have fresh: "?nd \<notin> fst ` set (pre @ post)"
    by auto
  then have "?nd \<notin> fst ` set pre" by auto
  from erase_at [OF this, of l post] sp have
    "erase (m_listeners N2) (Node ?nd) = Inr (pre @ post)" by simp
  with c n2 have "connection_disconnect s2 c =
      Inr (s2\<lparr>notifiers := (notifiers s2)(n \<mapsto> N2\<lparr>m_listeners := pre @ post\<rparr>)\<rparr>,
           c\<lparr>m_notifier := None\<rparr>)"
    by (simp add: connection_disconnect_def disconnect_iter_def)
  with c(2) n2 sp fresh show ?thesis
    by (intro exI [of _ ?nd] exI [of _ N2] exI [of _ pre] exI [of _ post]
          exI [of _ "s2\<lparr>notifiers := (notifiers s2)(n \<mapsto> N2\<lparr>m_listeners := pre @ post\<rparr>)\<rparr>"]
          exI [of _ "c\<lparr>m_notifier := None\<rparr>"]) simp
qed

lemma ex_run: "run ex_one ex_acts = Inr ex_later"
  by (simp add: ex_acts_def ex_one_def ex_later_def ex_defs op_defs erase.simps
        notifier_copy_def copy_list_def eval_nat_numeral fun_upd_twist upt_rec)

lemma ex_sparing: "sparing 1 (Node 0) ex_one ex_acts"
  by (simp add: ex_acts_def ex_one_def ex_defs op_defs
        notifier_copy_def copy_list_def)

theorem connection_disconnect_removes_issued_witness:
  "wf_store ex_store
   \<and> connect ex_store 1 ex_m1 = Inr (ex_one, \<lparr>m_notifier = Some 1, m_listener = Node 0\<rparr>)
   \<and> run ex_one ex_acts = Inr ex_later
   \<and> sparing 1 (Node 0) ex_one ex_acts
   \<and> (\<exists>s3 c'. connection_disconnect ex_later \<lparr>m_notifier = Some 1, m_listener = Node 0\<rparr> = Inr (s3, c')
         \<and> map_option m_listeners (notifiers s3 1) = Some [(2, ex_free)]
         \<and> callbacks_of s3 2 =
              [\<lparr>cb_function = Disconnect_trackable, cb_notifier = Some 1, cb_object = Some 2\<rparr>,
               \<lparr>cb_function = Disconnect_trackable, cb_notifier = Some 1, cb_object = Some 2\<rparr>]
         \<and> m_notifier c' = None)"
proof -
  let ?c = "\<lparr>m_notifier = Some 1, m_listener = Node 0\<rparr>"
  have issued: "connect ex_store 1 ex_m1 = Inr (ex_one, ?c)"
    by (simp add: ex_one_def ex_defs op_defs)
  have sp: "sparing 1 (m_listener ?c) ex_one ex_acts"
    using ex_sparing by simp
  from connection_disconnect_removes_issued [OF wf_ex_store issued ex_run sp]
  obtain nd N2 pre post s3 c' where
    nd: "Node 0 = Node nd"
    and n2: "notifiers ex_later 1 = Some N2" "m_listeners N2 = pre @ (nd, ex_m1) # post"
    and fresh: "nd \<notin> fst ` set (pre @ post)"
    and d: "connection_disconnect ex_later ?c = Inr (s3, c')"
    and s3: "notifiers s3 = (notifiers ex_later)(1 \<mapsto> N2\<lparr>m_listeners := pre @ post\<rparr>)"
      "trackables s3 = trackables ex_later" "m_notifier c' = None"
    by auto
  from n2 have "[(2, ex_free), (0, ex_m1)] = pre @ (nd, ex_m1) # post"
    by (auto simp: ex_later_def)
  with nd fresh have "pre @ post = [(2, ex_free)]"
    by (cases pre; cases "tl pre") auto
  with d s3 have "\<exists>s3 c'. connection_disconnect ex_later ?c = Inr (s3, c')
         \<and> map_option m_listeners (notifiers s3 1) = Some [(2, ex_free)]
         \<and> callbacks_of s3 2 =
              [\<lparr>cb_function = Disconnect_trackable, cb_notifier = Some 1, cb_object = Some 2\<rparr>,
               \<lparr>cb_function = Disconnect_trackable, cb_notifier = Some 1, cb_object = Some 2\<rparr>]
         \<and> m_notifier c' = None"
    by (simp add: callbacks_of_def ex_later_def)
  with wf_ex_store issued ex_run ex_sparing show ?thesis by blast
qed

text \<open>
  The claim as it is written has the notifier call \<^verbatim>\<open>untrack(this)\<close> on the target when
  the last listener bound to it is disconnected. Connect \<open>ex_m1\<close>, the only listener
  bound to the object at address 2, and disconnect it through its connection: the list
  is empty and the object still holds its registration for the notifier, which an
  \<^verbatim>\<open>untrack\<close> would have removed.
\<close>

theorem connection_disconnect_no_untrack_counterexample:
  "and_then (connect ex_store 1 ex_m1)
     (\<lambda>(s, c). map_sum id (\<lambda>(s', c'). (listeners_of s 1, listeners_of s' 1, callbacks_of s' 2))
                 (connection_disconnect s c))
    = Inr ([ex_m1], [], [\<lparr>cb_function = Disconnect_trackable, cb_notifier = Some 1, cb_object = Some 2\<rparr>])
   \<and> m_callbacks (untrack \<lparr>m_callbacks = [\<lparr>cb_function = Disconnect_trackable, cb_notifier = Some 1, cb_object = Some 2\<rparr>]\<rparr> (Some 1)) = []"
  by (simp add: ex_defs op_defs)

text \<open>
  Why \<^verbatim>\<open>disconnect(obj)\<close> on the notifier is not among the sparing operations:
  \<^verbatim>\<open>std::remove_if\<close> moves values from node to node. Connect \<open>ex_free\<close>, \<open>ex_m2\<close> and
  \<open>ex_m1\<close>, and disconnect the object at address 2: the node of the connection
  returned for \<open>ex_m1\<close> is still linked and now holds \<open>ex_free\<close>, and that
  connection's \<^verbatim>\<open>disconnect\<close> takes a copy of \<open>ex_free\<close> out of the list.
\<close>

lemma moved_value_disconnect:
  "and_then (connect ex_store 1 ex_free)
     (\<lambda>(s1, c1). and_then (connect s1 1 ex_m2)
        (\<lambda>(s2, c2). and_then (connect s2 1 ex_m1)
           (\<lambda>(s3, c3). and_then (disconnect_obj s3 1 (Some 2))
              (\<lambda>s4. map_sum id (\<lambda>(s5, c'). (c3, m_listeners (the (notifiers s4 1)), m_listeners (the (notifiers s5 1))))
                       (connection_disconnect s4 c3)))))
   = Inr (\<lparr>m_notifier = Some 1, m_listener = Node 2\<rparr>, [(2, ex_free), (0, ex_free)], [(0, ex_free)])"
  by (simp add: ex_defs op_defs eval_nat_numeral)

section \<open>The destructor of a notifier\<close>

lemma obj_untrack_effect:
  assumes "trackables s a = Some t"
  shows "obj_untrack s (Some a) n = Inr (s\<lparr>trackables := (trackables s)(a \<mapsto> untrack t n)\<rparr>)"
  using assms by (simp add: obj_untrack_def)

lemma untrack_twice: "untrack (untrack t n) n = untrack t n"
  by (simp add: untrack_def forward_list_remove_if_def)

lemma untrack_listeners_effect:
  assumes "\<forall>l\<in>set ls. is_trackable l \<longrightarrow> (\<exists>a t. get_object l = Some a \<and> trackables s a = Some t)"
  shows "\<exists>s'. untrack_listeners s n ls = Inr s'
           \<and> notifiers s' = notifiers s \<and> next_node s' = next_node s
           \<and> (\<forall>a. trackables s' a =
                 (if (\<exists>l\<in>set ls. is_trackable l \<and> get_object l = Some a)
                  then map_option (\<lambda>t. untrack t (Some n)) (trackables s a)
                  else trackables s a))"
  using assms
proof (induction ls arbitrary: s)
  case Nil
  then show ?case by simp
next
  case (Cons l ls)
  show ?case
  proof (cases "is_trackable l")
    case False
    from Cons.prems have "\<forall>l\<in>set ls. is_trackable l \<longrightarrow> (\<exists>a t. get_object l = Some a \<and> trackables s a = Some t)"
      by simp
    from Cons.IH [OF this] False show ?thesis by auto
  next
    case True
    with Cons.prems obtain b t where b: "get_object l = Some b" "trackables s b = Some t"
      by auto
    let ?s1 = "s\<lparr>trackables := (trackables s)(b \<mapsto> untrack t (Some n))\<rparr>"
    have step: "obj_untrack s (get_object l) (Some n) = Inr ?s1"
      using b by (simp add: obj_untrack_effect)
    have "\<forall>l'\<in>set ls. is_trackable l' \<longrightarrow> (\<exists>a t. get_object l' = Some a \<and> trackables ?s1 a = Some t)"
    proof (intro ballI impI)
      fix l' assume "l' \<in> set ls" "is_trackable l'"
      with Cons.prems obtain a t' where a: "get_object l' = Some a" "trackables s a = Some t'"
        by auto
      then show "\<exists>a t. get_object l' = Some a \<and> trackables ?s1 a = Some t"
        by (cases "a = b") auto
    qed
    from Cons.IH [OF this] obtain s' where s':
      "untrack_listeners ?s1 n ls = Inr s'" "notifiers s' = notifiers ?s1" "next_node s' = next_node ?s1"
      "\<forall>a. trackables s' a =
                 (if (\<exists>l\<in>set ls. is_trackable l \<and> get_object l = Some a)
                  then map_option (\<lambda>t. untrack t (Some n)) (trackables ?s1 a)
                  else trackables ?s1 a)"
      by blast
    have "untrack_listeners s n (l # ls) = Inr s'"
      using True step s'(1) by simp
    moreover have "\<forall>a. trackables s' a =
                 (if (\<exists>l'\<in>set (l # ls). is_trackable l' \<and> get_object l' = Some a)
                  then map_option (\<lambda>t. untrack t (Some n)) (trackables s a)
                  else trackables s a)"
      using s'(4) True b by (auto simp: untrack_twice)
    ultimately show ?thesis using s'(2,3) by simp
  qed
qed

text \<open>
  C4, amended. Let the target of every trackable listener left in a live notifier be a
  live trackable object. Then the destructor returns and the notifier is gone; every
  object that is the target of such a listener has lost its registrations for the
  notifier and kept its other registrations; the registrations of every other object
  are what they were.
\<close>

theorem notifier_destructor_untracks_targets:
  assumes "notifiers s n = Some N"
    and "\<forall>l\<in>set (map snd (m_listeners N)).
           is_trackable l \<longrightarrow> (\<exists>a t. get_object l = Some a \<and> trackables s a = Some t)"
  shows "\<exists>s'. notifier_destructor s n = Inr s'
           \<and> notifiers s' = (notifiers s)(n := None)
           \<and> (\<forall>a. callbacks_of s' a =
                 (if (\<exists>l\<in>set (map snd (m_listeners N)). is_trackable l \<and> get_object l = Some a)
                  then filter (\<lambda>c. cb_notifier c \<noteq> Some n) (callbacks_of s a)
                  else callbacks_of s a))"
proof -
  from untrack_listeners_effect [OF assms(2), of n] obtain s1 where s1:
    "untrack_listeners s n (map snd (m_listeners N)) = Inr s1"
    "notifiers s1 = notifiers s"
    "\<forall>a. trackables s1 a =
          (if (\<exists>l\<in>set (map snd (m_listeners N)). is_trackable l \<and> get_object l = Some a)
           then map_option (\<lambda>t. untrack t (Some n)) (trackables s a)
           else trackables s a)"
    by blast
  have "notifier_destructor s n = Inr (s1\<lparr>notifiers := (notifiers s1)(n := None)\<rparr>)"
    using assms(1) s1(1) by (simp add: notifier_destructor_def)
  moreover have "\<forall>a. callbacks_of (s1\<lparr>notifiers := (notifiers s1)(n := None)\<rparr>) a =
                 (if (\<exists>l\<in>set (map snd (m_listeners N)). is_trackable l \<and> get_object l = Some a)
                  then filter (\<lambda>c. cb_notifier c \<noteq> Some n) (callbacks_of s a)
                  else callbacks_of s a)"
    using s1(3)
    by (auto simp: callbacks_of_def untrack_def forward_list_remove_if_def split: option.splits)
  ultimately show ?thesis using s1(2) by simp
qed

theorem notifier_destructor_untracks_targets_witness:
  "and_then (connect (ex_store\<lparr>notifiers := [1 \<mapsto> \<lparr>m_listeners = []\<rparr>, 3 \<mapsto> \<lparr>m_listeners = []\<rparr>]\<rparr>) 1 ex_m1)
     (\<lambda>(s, c). map_sum id fst (connect s 3 ex_m1)) = Inr ex_two
   \<and> (\<exists>s'. notifier_destructor ex_two 1 = Inr s'
      \<and> notifiers s' 1 = None
      \<and> map_option m_listeners (notifiers s' 3) = Some [(1, ex_m1)]
      \<and> callbacks_of s' 2 =
           [\<lparr>cb_function = Disconnect_trackable, cb_notifier = Some 3, cb_object = Some 2\<rparr>])"
proof -
  have reach: "and_then (connect (ex_store\<lparr>notifiers := [1 \<mapsto> \<lparr>m_listeners = []\<rparr>, 3 \<mapsto> \<lparr>m_listeners = []\<rparr>]\<rparr>) 1 ex_m1)
     (\<lambda>(s, c). map_sum id fst (connect s 3 ex_m1)) = Inr ex_two"
    by (simp add: ex_two_def ex_defs op_defs numeral_2_eq_2 fun_upd_twist)
  from notifier_destructor_untracks_targets [of ex_two 1 "\<lparr>m_listeners = [(0, ex_m1)]\<rparr>"]
  obtain s' where s': "notifier_destructor ex_two 1 = Inr s'"
    "notifiers s' = (notifiers ex_two)(1 := None)"
    "\<forall>a. callbacks_of s' a =
        (if (\<exists>l\<in>set (map snd (m_listeners \<lparr>m_listeners = [(0, ex_m1)]\<rparr>)).
               is_trackable l \<and> get_object l = Some a)
         then filter (\<lambda>c. cb_notifier c \<noteq> Some 1) (callbacks_of ex_two a)
         else callbacks_of ex_two a)"
    by (auto simp: ex_two_def ex_defs is_trackable_def get_object_def)
  from s'(3) have "callbacks_of s' 2 =
      [\<lparr>cb_function = Disconnect_trackable, cb_notifier = Some 3, cb_object = Some 2\<rparr>]"
    by (simp add: ex_two_def ex_defs is_trackable_def get_object_def)
  with s'(1,2) have "\<exists>s'. notifier_destructor ex_two 1 = Inr s'
      \<and> notifiers s' 1 = None
      \<and> map_option m_listeners (notifiers s' 3) = Some [(1, ex_m1)]
      \<and> callbacks_of s' 2 =
           [\<lparr>cb_function = Disconnect_trackable, cb_notifier = Some 3, cb_object = Some 2\<rparr>]"
    by (simp add: ex_two_def)
  with reach show ?thesis by blast
qed

text \<open>
  The claim as it is written ends with: no trackable object retains a registration for
  the destroyed notifier. Connect \<open>ex_m1\<close>, call \<^verbatim>\<open>disconnect_all\<close>, which untracks
  nothing, and destroy the notifier: its list is empty, so the destructor untracks
  nothing either, and the object at address 2 keeps a registration for a notifier that
  no longer exists.
\<close>

theorem notifier_destructor_stale_registration_counterexample:
  "and_then (connect ex_store 1 ex_m1)
     (\<lambda>(s, c). and_then (disconnect_all s 1)
        (\<lambda>s'. map_sum id (\<lambda>s''. (map_option m_listeners (notifiers s'' 1), callbacks_of s'' 2))
                 (notifier_destructor s' 1)))
    = Inr (None, [\<lparr>cb_function = Disconnect_trackable, cb_notifier = Some 1, cb_object = Some 2\<rparr>])"
  by (simp add: ex_defs op_defs)

section \<open>Copies of a notifier and the destructor of a trackable object\<close>

lemma copy_list_values: "map snd (copy_list nd l) = map snd l"
  by (simp add: copy_list_def)

text \<open>
  C9, amended. Copy construction at an address that holds no notifier, and copy
  assignment to a live notifier, both from a live notifier, return; every trackable
  object is as it was (no \<^verbatim>\<open>track\<close> call) and the copy holds the listeners of the
  original. The destructor of a trackable object, run after the copy was made, leaves
  alone the list of every notifier for which the object held no registration before
  the copy was made: such a copy keeps its list, listeners bound to the destroyed
  object included.
\<close>

theorem notifier_copy_tracks_nothing:
  assumes "notifiers s other = Some N"
    and "cp = notifier_copy \<and> notifiers s this = None
         \<or> cp = notifier_assign \<and> notifiers s this \<noteq> None"
  shows "\<exists>s1 N1. cp s this other = Inr s1
           \<and> trackables s1 = trackables s
           \<and> notifiers s1 this = Some N1
           \<and> map snd (m_listeners N1) = map snd (m_listeners N)
           \<and> (\<forall>a s2 m. (\<forall>cb\<in>set (callbacks_of s a). cb_notifier cb \<noteq> Some m)
                  \<and> trackable_destructor s1 a = Inr s2
                  \<longrightarrow> notifiers s2 m = notifiers s1 m)"
proof -
  have "\<exists>s1. cp s this other = Inr s1"
  proof (cases "cp = notifier_copy \<and> notifiers s this = None")
    case True
    then show ?thesis using assms(1) by (simp add: notifier_copy_def)
  next
    case False
    with assms(2) obtain N' where "cp = notifier_assign" "notifiers s this = Some N'"
      by auto
    then show ?thesis
      using assms(1) by (cases "this = other") (simp_all add: notifier_assign_def)
  qed
  then obtain s1 where ret: "cp s this other = Inr s1"
    by blast
  have tr: "trackables s1 = trackables s"
    using assms ret
    by (auto simp: notifier_copy_def notifier_assign_def split: option.splits if_splits)
  have "\<exists>N1. notifiers s1 this = Some N1
                \<and> map snd (m_listeners N1) = map snd (m_listeners N)"
    using assms ret
    by (auto simp: notifier_copy_def notifier_assign_def copy_list_values
             split: option.splits if_splits)
  then obtain N1 where ls: "notifiers s1 this = Some N1"
    "map snd (m_listeners N1) = map snd (m_listeners N)"
    by blast
  have frame: "\<forall>a s2 m. (\<forall>cb\<in>set (callbacks_of s a). cb_notifier cb \<noteq> Some m)
                \<and> trackable_destructor s1 a = Inr s2
                \<longrightarrow> notifiers s2 m = notifiers s1 m"
  proof (intro allI impI, elim conjE)
    fix a s2 m
    assume none: "\<forall>cb\<in>set (callbacks_of s a). cb_notifier cb \<noteq> Some m"
      and d: "trackable_destructor s1 a = Inr s2"
    from tr have "callbacks_of s1 a = callbacks_of s a"
      by (simp add: callbacks_of_def)
    with none have "\<forall>cb\<in>set (callbacks_of s1 a). cb_notifier cb \<noteq> Some m"
      by simp
    from trackable_destructor_frame [OF d this] show "notifiers s2 m = notifiers s1 m" .
  qed
  from ret tr ls frame show ?thesis by blast
qed

theorem notifier_copy_tracks_nothing_witness:
  "connects ex_store 1 [ex_m1] = Inr ex_one
   \<and> notifier_copy ex_one 3 1 = Inr ex_copied
   \<and> trackables ex_copied = trackables ex_one
   \<and> listeners_of ex_copied 3 = [ex_m1]
   \<and> notifier_assign ex_copied 3 1 = Inr ex_assigned
   \<and> trackables ex_assigned = trackables ex_copied
   \<and> listeners_of ex_assigned 3 = [ex_m1]
   \<and> map_sum id (\<lambda>s. (listeners_of s 1, notifiers s 3)) (trackable_destructor ex_assigned 2)
       = Inr ([], notifiers ex_assigned 3)"
proof -
  have reach: "connects ex_store 1 [ex_m1] = Inr ex_one"
    by (simp add: ex_one_def ex_defs op_defs)
  have n1: "notifiers ex_one 1 = Some \<lparr>m_listeners = [(0, ex_m1)]\<rparr>"
    by (simp add: ex_one_def)
  have n1': "notifiers ex_copied 1 = Some \<lparr>m_listeners = [(0, ex_m1)]\<rparr>"
    by (simp add: ex_copied_def)
  have copy: "notifier_copy ex_one 3 1 = Inr ex_copied"
    by (simp add: ex_one_def ex_copied_def notifier_copy_def copy_list_def numeral_2_eq_2 fun_upd_twist)
  have assign: "notifier_assign ex_copied 3 1 = Inr ex_assigned"
    by (simp add: ex_copied_def ex_assigned_def notifier_assign_def copy_list_def eval_nat_numeral)
  from notifier_copy_tracks_nothing [OF n1, of notifier_copy 3] copy
  have c1: "trackables ex_copied = trackables ex_one" "listeners_of ex_copied 3 = [ex_m1]"
    by (auto simp: ex_one_def listeners_of_def)
  from notifier_copy_tracks_nothing [OF n1', of notifier_assign 3] assign
  have c2: "trackables ex_assigned = trackables ex_copied" "listeners_of ex_assigned 3 = [ex_m1]"
    and keep: "\<forall>a s2 m. (\<forall>cb\<in>set (callbacks_of ex_copied a). cb_notifier cb \<noteq> Some m)
                \<and> trackable_destructor ex_assigned a = Inr s2
                \<longrightarrow> notifiers s2 m = notifiers ex_assigned m"
    by (auto simp: ex_copied_def listeners_of_def)
  obtain s2 where destr: "trackable_destructor ex_assigned 2 = Inr s2"
    and gone: "listeners_of s2 1 = []"
    by (simp add: ex_assigned_def ex_defs op_defs)
  have "\<forall>cb\<in>set (callbacks_of ex_copied 2). cb_notifier cb \<noteq> Some 3"
    by (simp add: ex_copied_def callbacks_of_def)
  with keep destr have "notifiers s2 3 = notifiers ex_assigned 3"
    by blast
  with reach copy assign c1 c2 destr gone show ?thesis by simp
qed

text \<open>
  The claim as it is written has the destruction of a trackable object never remove
  listeners from a copy made afterwards. Connect \<open>ex_m1\<close> to the notifier at address 1
  and \<open>ex_m2\<close> to the notifier at address 3, both bound to the object at address 2,
  and assign the first notifier to the second: the second now holds \<open>ex_m1\<close>, no
  registration has changed, and the object still holds the registration the second
  notifier made when it connected \<open>ex_m2\<close>. The destructor of the object calls
  \<^verbatim>\<open>disconnect\<close> on the second notifier, and the copied listener is gone from it.
\<close>

theorem notifier_assign_loses_listener_counterexample:
  "and_then (connect ex_pair 1 ex_m1)
     (\<lambda>(s1, c1). and_then (connect s1 3 ex_m2)
        (\<lambda>(s2, c2). and_then (notifier_assign s2 3 1)
           (\<lambda>s3. map_sum id (\<lambda>s4. (listeners_of s2 3, listeners_of s3 3, callbacks_of s3 2 = callbacks_of s2 2, listeners_of s4 3))
                    (trackable_destructor s3 2))))
   = Inr ([ex_m2], [ex_m1], True, [])"
  by (simp add: ex_pair_def ex_defs op_defs notifier_assign_def copy_list_def eval_nat_numeral)

end
